theory Spec2Isabelle
  imports Complex_Main "HOL-Library.Char_ord" "HOL-Library.List_Lexorder" "HOL-Library.Multiset"
begin

section \<open>The events list view: filter, sort, group, paginate\<close>

text \<open>
  A shallow embedding of the derived collections of \<^verbatim>\<open>EventsView\<close>
  (\<^verbatim>\<open>src/features/events/events-view.tsx\<close>): \<^verbatim>\<open>filteredEvents\<close>,
  \<^verbatim>\<open>groupedEvents\<close>, \<^verbatim>\<open>paginatedGroupedEvents\<close>, \<^verbatim>\<open>totalPages\<close>,
  \<^verbatim>\<open>totalUpcomingEvents\<close> and \<^verbatim>\<open>todayEvents\<close>.

  Every \<^verbatim>\<open>useMemo\<close> body is a function of the values it reads. The wall clock
  (\<^verbatim>\<open>new Date()\<close>, and \<^verbatim>\<open>Date.now()\<close> inside \<^verbatim>\<open>isToday\<close>) is the parameter
  \<open>now\<close>, in milliseconds since the epoch. What the engine and its environment decide
  is a parameter too: the local time zone \<open>z\<close> with its rules, the case mapping
  \<open>lower\<close> of \<^verbatim>\<open>String.prototype.toLowerCase\<close>, and the collation \<open>lc\<close> behind
  \<^verbatim>\<open>String.prototype.localeCompare\<close>.
\<close>

subsection \<open>Data\<close>

text \<open>
  A JavaScript \<^verbatim>\<open>Date\<close> holds a time value, an integral number of milliseconds, or
  \<^verbatim>\<open>NaN\<close> (an Invalid Date, which is what \<^verbatim>\<open>new Date(s)\<close> gives for a string it
  cannot parse). \<open>getTime\<close> returns \<open>None\<close> for \<^verbatim>\<open>NaN\<close>.
\<close>

datatype jsdate = InvalidDate | Date int

fun getTime :: "jsdate \<Rightarrow> int option" where
  "getTime InvalidDate = None"
| "getTime (Date t) = Some t"

text \<open>
  The view reads \<^verbatim>\<open>event.duration.startAt\<close> and \<^verbatim>\<open>event.duration.endAt\<close> only through
  \<^verbatim>\<open>new Date(...)\<close>; the fields of \<open>duration\<close> hold that \<^verbatim>\<open>Date\<close>. The text fields
  \<^verbatim>\<open>name\<close>, \<^verbatim>\<open>description\<close> and \<^verbatim>\<open>location\<close> are \<open>None\<close> when the property is
  missing (\<^verbatim>\<open>undefined\<close> or \<^verbatim>\<open>null\<close>). A price amount is a finite number; the sign
  of a difference of two finite doubles is the sign of the exact difference, so amounts
  are rationals.
\<close>

record duration =
  startAt :: jsdate
  endAt :: jsdate

record price =
  amount :: rat
  currency :: string

record event =
  event_id :: string
  name :: "string option"
  description :: "string option"
  location :: "string option"
  duration :: duration
  price :: price

datatype FilterStatus = Upcoming | Today | Past | All

datatype SortOption = DateAsc | DateDesc | NameAsc | NameDesc | PriceAsc | PriceDesc

text \<open>\<^verbatim>\<open>type DateRange = { from: Date | null; to: Date | null }\<close>\<close>

record DateRange =
  range_from :: "jsdate option"
  range_to :: "jsdate option"

text \<open>What a stage can throw.\<close>

datatype error = TypeError | RangeError

subsection \<open>Strings\<close>

text \<open>
  A string is the sequence of its code units. \<^verbatim>\<open>String.prototype.toLowerCase\<close> maps
  every cased letter of Unicode; the functions below take it as the parameter \<open>lower\<close>.
\<close>

text \<open>\<^verbatim>\<open>s.startsWith(q)\<close> and \<^verbatim>\<open>s.includes(q)\<close>: \<open>q\<close> occurs in \<open>s\<close> at some index.\<close>

fun startsWith :: "string \<Rightarrow> string \<Rightarrow> bool" where
  "startsWith s [] = True"
| "startsWith [] (c # q) = False"
| "startsWith (a # s) (c # q) = (a = c \<and> startsWith s q)"

fun str_includes :: "string \<Rightarrow> string \<Rightarrow> bool" where
  "str_includes [] q = (q = [])"
| "str_includes (a # s) q = (startsWith (a # s) q \<or> str_includes s q)"

subsection \<open>The date-fns functions the view calls\<close>

text \<open>
  \<^verbatim>\<open>isAfter(date, dateToCompare)\<close> and \<^verbatim>\<open>isBefore\<close> compare the two time values; a
  comparison with \<^verbatim>\<open>NaN\<close> is false.
\<close>

fun isAfter :: "jsdate \<Rightarrow> jsdate \<Rightarrow> bool" where
  "isAfter (Date a) (Date b) = (a > b)"
| "isAfter _ _ = False"

fun isBefore :: "jsdate \<Rightarrow> jsdate \<Rightarrow> bool" where
  "isBefore (Date a) (Date b) = (a < b)"
| "isBefore _ _ = False"

definition msPerDay :: int where
  "msPerDay = 86400000"

text \<open>
  The local time zone, as ECMAScript has it: \<open>localTZA z t\<close> is the offset of local time
  from UTC, in milliseconds, at the instant \<open>t\<close> (it changes with daylight saving time),
  and \<open>utc z l\<close> is the instant of the local time value \<open>l\<close> (the abstract operation
  \<^verbatim>\<open>UTC\<close>, which decides what a local time that is skipped or repeated means).
\<close>

record zone =
  localTZA :: "int \<Rightarrow> int"
  utc :: "int \<Rightarrow> int"

text \<open>The number of the local calendar day of an instant (day 0 is 1970-01-01).\<close>

definition localDay :: "zone \<Rightarrow> int \<Rightarrow> int" where
  "localDay z t = (t + localTZA z t) div msPerDay"

text \<open>
  \<^verbatim>\<open>startOfDay(date)\<close> is \<^verbatim>\<open>date.setHours(0, 0, 0, 0)\<close>: the instant of the local
  time 00:00 of the date's local day. \<^verbatim>\<open>isSameDay(a, b)\<close> is
  \<^verbatim>\<open>+startOfDay(a) === +startOfDay(b)\<close>, false when either is \<^verbatim>\<open>NaN\<close>;
  \<^verbatim>\<open>isToday(date)\<close> is \<^verbatim>\<open>isSameDay(date, Date.now())\<close>.
\<close>

fun startOfDay :: "zone \<Rightarrow> jsdate \<Rightarrow> jsdate" where
  "startOfDay z InvalidDate = InvalidDate"
| "startOfDay z (Date t) = Date (utc z (localDay z t * msPerDay))"

definition isSameDay :: "zone \<Rightarrow> jsdate \<Rightarrow> jsdate \<Rightarrow> bool" where
  "isSameDay z a b =
     (case (getTime (startOfDay z a), getTime (startOfDay z b)) of
        (Some x, Some y) \<Rightarrow> x = y
      | _ \<Rightarrow> False)"

definition isToday :: "zone \<Rightarrow> int \<Rightarrow> jsdate \<Rightarrow> bool" where
  "isToday z now d = isSameDay z d (Date now)"

text \<open>
  The civil date (year, month 1 to 12, day of month) of a day number in the proleptic
  Gregorian calendar: what \<^verbatim>\<open>getFullYear\<close>, \<^verbatim>\<open>getMonth() + 1\<close> and \<^verbatim>\<open>getDate\<close> return.
\<close>

definition civilFromDays :: "int \<Rightarrow> int \<times> int \<times> int" where
  "civilFromDays days =
     (let z = days + 719468;
          era = z div 146097;
          doe = z - era * 146097;
          yoe = (doe - doe div 1460 + doe div 36524 - doe div 146096) div 365;
          y = yoe + era * 400;
          doy = doe - (365 * yoe + yoe div 4 - yoe div 100);
          mp = (5 * doy + 2) div 153;
          d = doy - (153 * mp + 2) div 5 + 1;
          m = (if mp < 10 then mp + 3 else mp - 9)
      in (if m \<le> 2 then y + 1 else y, m, d))"

text \<open>\<^verbatim>\<open>Math.abs(number).toString()\<close> for an integer: the decimal digits of \<open>n \<ge> 0\<close>.\<close>

function toDigits :: "int \<Rightarrow> string" where
  "toDigits n =
     (if n < 10 then [''0123456789'' ! nat n]
      else toDigits (n div 10) @ [''0123456789'' ! nat (n mod 10)])"
  by pat_completeness auto
termination
  by (relation "measure nat") auto

declare toDigits.simps [simp del]

text \<open>
  \<^verbatim>\<open>addLeadingZeros(number, targetLength)\<close>: the sign, then the digits padded on the
  left with zeros to the target length.
\<close>

definition addLeadingZeros :: "int \<Rightarrow> nat \<Rightarrow> string" where
  "addLeadingZeros number targetLength =
     (let output = toDigits \<bar>number\<bar>
      in (if number < 0 then ''-'' else '''')
         @ replicate (targetLength - length output) CHR ''0'' @ output)"

text \<open>
  \<^verbatim>\<open>format(date, 'yyyy-MM-dd')\<close>: a \<^verbatim>\<open>RangeError\<close> on an Invalid Date; otherwise
  the local year (the token \<^verbatim>\<open>y\<close> prints \<^verbatim>\<open>1 - year\<close> for a year below 1), month and
  day of month.
\<close>

definition dayKey :: "zone \<Rightarrow> int \<Rightarrow> string" where
  "dayKey z t =
     (case civilFromDays (localDay z t) of
        (signedYear, m, d) \<Rightarrow>
          addLeadingZeros (if signedYear > 0 then signedYear else 1 - signedYear) 4
          @ ''-'' @ addLeadingZeros m 2 @ ''-'' @ addLeadingZeros d 2)"

fun format_yyyy_MM_dd :: "zone \<Rightarrow> jsdate \<Rightarrow> error + string" where
  "format_yyyy_MM_dd z InvalidDate = Inl RangeError"
| "format_yyyy_MM_dd z (Date t) = Inr (dayKey z t)"

subsection \<open>The filter stage\<close>

text \<open>
  \<^verbatim>\<open>Array.prototype.filter\<close> with a predicate that can throw: the first exception
  ends the pass.
\<close>

fun filterE :: "('a \<Rightarrow> error + bool) \<Rightarrow> 'a list \<Rightarrow> error + 'a list" where
  "filterE p [] = Inr []"
| "filterE p (x # xs) =
     (case p x of
        Inl err \<Rightarrow> Inl err
      | Inr keep \<Rightarrow>
          (case filterE p xs of
             Inl err \<Rightarrow> Inl err
           | Inr r \<Rightarrow> Inr (if keep then x # r else r)))"

text \<open>
  \<^verbatim>\<open>field.toLowerCase().includes(query)\<close>: reading \<^verbatim>\<open>toLowerCase\<close> of a missing
  field throws a \<^verbatim>\<open>TypeError\<close>.
\<close>

definition fieldIncludes :: "(string \<Rightarrow> string) \<Rightarrow> string option \<Rightarrow> string \<Rightarrow> error + bool" where
  "fieldIncludes lower field query =
     (case field of
        None \<Rightarrow> Inl TypeError
      | Some s \<Rightarrow> Inr (str_includes (lower s) query))"

text \<open>
  The predicate of the search filter (lines 81 to 83). \<^verbatim>\<open>||\<close> evaluates its right
  operand only when the left one is false.
\<close>

definition matchesSearch :: "(string \<Rightarrow> string) \<Rightarrow> string \<Rightarrow> event \<Rightarrow> error + bool" where
  "matchesSearch lower query e =
     (case fieldIncludes lower (name e) query of
        Inl err \<Rightarrow> Inl err
      | Inr True \<Rightarrow> Inr True
      | Inr False \<Rightarrow>
          (case fieldIncludes lower (description e) query of
             Inl err \<Rightarrow> Inl err
           | Inr True \<Rightarrow> Inr True
           | Inr False \<Rightarrow> fieldIncludes lower (location e) query))"

text \<open>Lines 78 to 85. The empty string is falsy, so it skips the filter.\<close>

definition searchFilter ::
    "(string \<Rightarrow> string) \<Rightarrow> string \<Rightarrow> event list \<Rightarrow> error + event list" where
  "searchFilter lower searchQuery filtered =
     (if searchQuery \<noteq> []
      then filterE (matchesSearch lower (lower searchQuery)) filtered
      else Inr filtered)"

text \<open>Lines 88 to 94.\<close>

definition statusFilter :: "zone \<Rightarrow> int \<Rightarrow> FilterStatus \<Rightarrow> event list \<Rightarrow> event list" where
  "statusFilter z now filterStatus filtered =
     (if filterStatus = Upcoming
        then filter (\<lambda>e. isAfter (startAt (duration e)) (Date now)) filtered
      else if filterStatus = Past
        then filter (\<lambda>e. isBefore (endAt (duration e)) (Date now)) filtered
      else if filterStatus = Today
        then filter (\<lambda>e. isToday z now (startAt (duration e))) filtered
      else filtered)"

text \<open>
  Lines 97 to 103. \<^verbatim>\<open>dateRange.from instanceof Date\<close> holds for a \<^verbatim>\<open>Date\<close> and not
  for \<^verbatim>\<open>null\<close>.
\<close>

definition dateRangeFilter :: "DateRange \<Rightarrow> event list \<Rightarrow> event list" where
  "dateRangeFilter dateRange filtered =
     (let filtered1 =
            (case range_from dateRange of
               Some lo \<Rightarrow> filter (\<lambda>e. isAfter (startAt (duration e)) lo) filtered
             | None \<Rightarrow> filtered)
      in (case range_to dateRange of
            Some hi \<Rightarrow> filter (\<lambda>e. isBefore (startAt (duration e)) hi) filtered1
          | None \<Rightarrow> filtered1))"

subsection \<open>The sort stage\<close>

text \<open>
  The comparator of lines 106 to 123, as \<^verbatim>\<open>Array.prototype.sort\<close> reads it: a result
  of \<^verbatim>\<open>NaN\<close> (a difference with the time value of an Invalid Date) counts as \<open>0\<close>.
  \<^verbatim>\<open>a.name.localeCompare(b.name)\<close> throws a \<^verbatim>\<open>TypeError\<close> when \<^verbatim>\<open>a.name\<close> is
  missing, and compares with the string \<^verbatim>\<open>"undefined"\<close> when \<^verbatim>\<open>b.name\<close> is.
\<close>

definition timeDiff :: "jsdate \<Rightarrow> jsdate \<Rightarrow> rat" where
  "timeDiff a b =
     (case (getTime a, getTime b) of
        (Some x, Some y) \<Rightarrow> of_int (x - y)
      | _ \<Rightarrow> 0)"

definition localeCompare ::
    "(string \<Rightarrow> string \<Rightarrow> int) \<Rightarrow> string option \<Rightarrow> string option \<Rightarrow> error + rat" where
  "localeCompare lc a b =
     (case a of
        None \<Rightarrow> Inl TypeError
      | Some s \<Rightarrow> Inr (of_int (lc s (case b of None \<Rightarrow> ''undefined'' | Some t \<Rightarrow> t))))"

fun compareEvents ::
    "(string \<Rightarrow> string \<Rightarrow> int) \<Rightarrow> SortOption \<Rightarrow> event \<Rightarrow> event \<Rightarrow> error + rat" where
  "compareEvents lc DateAsc a b = Inr (timeDiff (startAt (duration a)) (startAt (duration b)))"
| "compareEvents lc DateDesc a b = Inr (timeDiff (startAt (duration b)) (startAt (duration a)))"
| "compareEvents lc NameAsc a b = localeCompare lc (name a) (name b)"
| "compareEvents lc NameDesc a b = localeCompare lc (name b) (name a)"
| "compareEvents lc PriceAsc a b = Inr (amount (price a) - amount (price b))"
| "compareEvents lc PriceDesc a b = Inr (amount (price b) - amount (price a))"

text \<open>
  \<^verbatim>\<open>Array.prototype.sort\<close> is a stable sort (ECMAScript 2019). With a comparator that
  is consistent and does not throw, its result is the one arrangement of the elements
  that is ordered and keeps elements comparing equal in their order, whatever the
  engine's algorithm; otherwise the language leaves the order to the engine. The model
  takes the elements in their order and moves each one left past the elements it compares
  less than, calling the comparator with the later element first, as V8 does when it
  inserts. An exception of the comparator ends the sort.

  In \<open>insertBy cmp x sortedRev\<close> the list is the part sorted so far, from its last element
  to its first.
\<close>

fun insertBy :: "('a \<Rightarrow> 'a \<Rightarrow> error + rat) \<Rightarrow> 'a \<Rightarrow> 'a list \<Rightarrow> error + 'a list" where
  "insertBy cmp x [] = Inr [x]"
| "insertBy cmp x (y # sortedRev) =
     (case cmp x y of
        Inl err \<Rightarrow> Inl err
      | Inr v \<Rightarrow>
          if v < 0
          then (case insertBy cmp x sortedRev of
                  Inl err \<Rightarrow> Inl err
                | Inr r \<Rightarrow> Inr (y # r))
          else Inr (x # y # sortedRev))"

fun sortLoop :: "('a \<Rightarrow> 'a \<Rightarrow> error + rat) \<Rightarrow> 'a list \<Rightarrow> 'a list \<Rightarrow> error + 'a list" where
  "sortLoop cmp [] sortedRev = Inr (rev sortedRev)"
| "sortLoop cmp (x # xs) sortedRev =
     (case insertBy cmp x sortedRev of
        Inl err \<Rightarrow> Inl err
      | Inr sortedRev' \<Rightarrow> sortLoop cmp xs sortedRev')"

definition sortWith :: "('a \<Rightarrow> 'a \<Rightarrow> error + rat) \<Rightarrow> 'a list \<Rightarrow> error + 'a list" where
  "sortWith cmp xs = sortLoop cmp xs []"

definition sortStage ::
    "(string \<Rightarrow> string \<Rightarrow> int) \<Rightarrow> SortOption \<Rightarrow> event list \<Rightarrow> error + event list" where
  "sortStage lc sortBy filtered = sortWith (compareEvents lc sortBy) filtered"

subsection \<open>\<^verbatim>\<open>filteredEvents\<close>\<close>

text \<open>
  Lines 71 to 126. \<open>events\<close> is \<open>None\<close> while the query has no data
  (\<^verbatim>\<open>if (!events) return []\<close>).
\<close>

definition filterStage ::
    "(string \<Rightarrow> string) \<Rightarrow> zone \<Rightarrow> int \<Rightarrow> string \<Rightarrow> FilterStatus \<Rightarrow> DateRange \<Rightarrow> event list
      \<Rightarrow> error + event list" where
  "filterStage lower z now searchQuery filterStatus dateRange evs =
     (case searchFilter lower searchQuery evs of
        Inl err \<Rightarrow> Inl err
      | Inr filtered \<Rightarrow> Inr (dateRangeFilter dateRange (statusFilter z now filterStatus filtered)))"

definition filteredEvents ::
    "(string \<Rightarrow> string) \<Rightarrow> (string \<Rightarrow> string \<Rightarrow> int) \<Rightarrow> zone \<Rightarrow> int \<Rightarrow> event list option
      \<Rightarrow> string \<Rightarrow> FilterStatus \<Rightarrow> DateRange \<Rightarrow> SortOption \<Rightarrow> error + event list" where
  "filteredEvents lower lc z now events searchQuery filterStatus dateRange sortBy =
     (case events of
        None \<Rightarrow> Inr []
      | Some evs \<Rightarrow>
          (case filterStage lower z now searchQuery filterStatus dateRange evs of
             Inl err \<Rightarrow> Inl err
           | Inr filtered \<Rightarrow> sortStage lc sortBy filtered))"

subsection \<open>\<^verbatim>\<open>groupedEvents\<close>\<close>

text \<open>
  A \<^verbatim>\<open>Record<string, EventPrimitives[]>\<close> is a list of the keys with their buckets, in
  the order the keys were first set. Lines 139 to 142: a new key starts a bucket at the
  end, a known key has the event pushed on its bucket.
\<close>

type_synonym groups = "(string \<times> event list) list"

fun pushGroup :: "string \<Rightarrow> event \<Rightarrow> groups \<Rightarrow> groups" where
  "pushGroup date e [] = [(date, [e])]"
| "pushGroup date e ((k, bucket) # g) =
     (if k = date then (k, bucket @ [e]) # g else (k, bucket) # pushGroup date e g)"

text \<open>The \<^verbatim>\<open>forEach\<close> of lines 134 to 143; \<^verbatim>\<open>format\<close> can throw.\<close>

fun groupLoop :: "zone \<Rightarrow> event list \<Rightarrow> groups \<Rightarrow> error + groups" where
  "groupLoop z [] g = Inr g"
| "groupLoop z (e # es) g =
     (case format_yyyy_MM_dd z (startAt (duration e)) of
        Inl err \<Rightarrow> Inl err
      | Inr date \<Rightarrow> groupLoop z es (pushGroup date e g))"

definition groupedEvents :: "zone \<Rightarrow> event list \<Rightarrow> error + groups" where
  "groupedEvents z filtered =
     (if length filtered = 0 then Inr [] else groupLoop z filtered [])"

subsection \<open>\<^verbatim>\<open>paginatedGroupedEvents\<close> and \<^verbatim>\<open>totalPages\<close>\<close>

definition eventsPerPage :: int where
  "eventsPerPage = 10"

text \<open>
  \<^verbatim>\<open>Array.prototype.slice(start, end)\<close>: a negative index counts from the end, and
  both are clamped to the array.
\<close>

definition slice :: "'a list \<Rightarrow> int \<Rightarrow> int \<Rightarrow> 'a list" where
  "slice xs start end =
     (let len = int (length xs);
          k = (if start < 0 then max (len + start) 0 else min start len);
          final = (if end < 0 then max (len + end) 0 else min end len)
      in take (nat (final - k)) (drop (nat k) xs))"

text \<open>
  Lines 149 to 159. \<^verbatim>\<open>Object.keys(groupedEvents).sort()\<close> sorts the keys by their
  code units; \<^verbatim>\<open>groupedEvents[date]\<close> is \<open>None\<close> (\<^verbatim>\<open>undefined\<close>) for a key that is
  not set.
\<close>

definition paginatedGroupedEvents :: "groups \<Rightarrow> int \<Rightarrow> (string \<times> event list option) list" where
  "paginatedGroupedEvents grouped currentPage =
     (let dates = sort (map fst grouped);
          pageDates = slice dates ((currentPage - 1) * eventsPerPage) (currentPage * eventsPerPage)
      in map (\<lambda>date. (date, map_of grouped date)) pageDates)"

text \<open>Lines 161 to 163: \<^verbatim>\<open>Math.ceil(Object.keys(groupedEvents).length / eventsPerPage)\<close>.\<close>

definition totalPages :: "groups \<Rightarrow> int" where
  "totalPages grouped = \<lceil>(of_nat (length (map fst grouped)) :: rat) / of_int eventsPerPage\<rceil>"

subsection \<open>The counters\<close>

text \<open>Lines 166 to 176.\<close>

definition totalUpcomingEvents :: "int \<Rightarrow> event list option \<Rightarrow> nat" where
  "totalUpcomingEvents now events =
     (case events of
        None \<Rightarrow> 0
      | Some evs \<Rightarrow> length (filter (\<lambda>e. isAfter (startAt (duration e)) (Date now)) evs))"

definition todayEvents :: "zone \<Rightarrow> int \<Rightarrow> event list option \<Rightarrow> nat" where
  "todayEvents z now events =
     (case events of
        None \<Rightarrow> 0
      | Some evs \<Rightarrow> length (filter (\<lambda>e. isToday z now (startAt (duration e))) evs))"

subsection \<open>\<^verbatim>\<open>filteredEvents\<close> on a store of arrays\<close>

text \<open>
  \<^verbatim>\<open>Array.prototype.sort\<close> sorts its array in place, so which array \<^verbatim>\<open>filtered\<close>
  names matters. Here the arrays of events live in a store, a reference is the index of an
  array in it, and a new array goes to the end. \<open>events\<close> is a reference to the
  caller's array, or \<open>None\<close>.

  \<^verbatim>\<open>[...events]\<close> and \<^verbatim>\<open>filtered.filter(...)\<close> make a new array;
  \<^verbatim>\<open>filtered = ...\<close> rebinds the variable; \<^verbatim>\<open>filtered.sort(...)\<close> overwrites the array
  that \<^verbatim>\<open>filtered\<close> names with the sorted elements, and leaves it as it was when the
  comparator throws. A function returns what the body returns, or the exception, and the
  store it leaves.
\<close>

type_synonym addr = nat

type_synonym store = "event list list"

definition alloc :: "event list \<Rightarrow> store \<Rightarrow> addr \<times> store" where
  "alloc xs h = (length h, h @ [xs])"

definition filter_store :: "(event \<Rightarrow> bool) \<Rightarrow> addr \<times> store \<Rightarrow> addr \<times> store" where
  "filter_store p = (\<lambda>(filtered, h). alloc (filter p (h ! filtered)) h)"

definition searchFilter_store ::
    "(string \<Rightarrow> string) \<Rightarrow> string \<Rightarrow> addr \<times> store \<Rightarrow> (error + addr) \<times> store" where
  "searchFilter_store lower searchQuery =
     (\<lambda>(filtered, h).
        if searchQuery \<noteq> []
        then (case filterE (matchesSearch lower (lower searchQuery)) (h ! filtered) of
                Inl err \<Rightarrow> (Inl err, h)
              | Inr kept \<Rightarrow> (case alloc kept h of (filtered', h') \<Rightarrow> (Inr filtered', h')))
        else (Inr filtered, h))"

definition statusFilter_store ::
    "zone \<Rightarrow> int \<Rightarrow> FilterStatus \<Rightarrow> addr \<times> store \<Rightarrow> addr \<times> store" where
  "statusFilter_store z now filterStatus s =
     (if filterStatus = Upcoming
        then filter_store (\<lambda>e. isAfter (startAt (duration e)) (Date now)) s
      else if filterStatus = Past
        then filter_store (\<lambda>e. isBefore (endAt (duration e)) (Date now)) s
      else if filterStatus = Today
        then filter_store (\<lambda>e. isToday z now (startAt (duration e))) s
      else s)"

definition dateRangeFilter_store :: "DateRange \<Rightarrow> addr \<times> store \<Rightarrow> addr \<times> store" where
  "dateRangeFilter_store dateRange s =
     (let s1 =
            (case range_from dateRange of
               Some lo \<Rightarrow> filter_store (\<lambda>e. isAfter (startAt (duration e)) lo) s
             | None \<Rightarrow> s)
      in (case range_to dateRange of
            Some hi \<Rightarrow> filter_store (\<lambda>e. isBefore (startAt (duration e)) hi) s1
          | None \<Rightarrow> s1))"

definition sort_store ::
    "(event \<Rightarrow> event \<Rightarrow> error + rat) \<Rightarrow> addr \<times> store \<Rightarrow> (error + addr) \<times> store" where
  "sort_store cmp =
     (\<lambda>(filtered, h).
        case sortWith cmp (h ! filtered) of
          Inl err \<Rightarrow> (Inl err, h)
        | Inr inOrder \<Rightarrow> (Inr filtered, h[filtered := inOrder]))"

definition filteredEvents_store ::
    "(string \<Rightarrow> string) \<Rightarrow> (string \<Rightarrow> string \<Rightarrow> int) \<Rightarrow> zone \<Rightarrow> int \<Rightarrow> addr option \<Rightarrow> string
      \<Rightarrow> FilterStatus \<Rightarrow> DateRange \<Rightarrow> SortOption \<Rightarrow> store \<Rightarrow> (error + addr) \<times> store" where
  "filteredEvents_store lower lc z now events searchQuery filterStatus dateRange sortBy h =
     (case events of
        None \<Rightarrow> (case alloc [] h of (fresh, h') \<Rightarrow> (Inr fresh, h'))
      | Some evs \<Rightarrow>
          (case searchFilter_store lower searchQuery (alloc (h ! evs) h) of
             (Inl err, h') \<Rightarrow> (Inl err, h')
           | (Inr filtered, h') \<Rightarrow>
               sort_store (compareEvents lc sortBy)
                 (dateRangeFilter_store dateRange
                    (statusFilter_store z now filterStatus (filtered, h')))))"

text \<open>
  \<open>(a, h)\<close> is a working copy with the elements \<open>xs\<close>: \<open>a\<close> is an array of \<open>h\<close> that the
  store \<open>h0\<close> did not have, and the arrays of \<open>h0\<close> are in \<open>h\<close> as they were.
\<close>

definition workingCopy :: "store \<Rightarrow> event list \<Rightarrow> addr \<times> store \<Rightarrow> bool" where
  "workingCopy h0 xs = (\<lambda>(a, h).
     length h0 \<le> a \<and> a < length h \<and> take (length h0) h = h0 \<and> h ! a = xs)"

subsection \<open>Notions of the specification\<close>

text \<open>\<open>q\<close> is a substring of \<open>s\<close>.\<close>

definition occursIn :: "string \<Rightarrow> string \<Rightarrow> bool" where
  "occursIn q s = (\<exists>p r. s = p @ q @ r)"

text \<open>The case-folded query is a substring of the case-folded text of a field that is set.\<close>

definition fieldHas :: "(string \<Rightarrow> string) \<Rightarrow> string \<Rightarrow> string option \<Rightarrow> bool" where
  "fieldHas lower q field = (\<exists>s. field = Some s \<and> occursIn (lower q) (lower s))"

text \<open>
  Modelled from the specification's words, for comparison with \<open>searchFilter\<close>: the
  search text is trimmed (\<^verbatim>\<open>String.prototype.trim\<close> on ASCII white space) and
  case-folded, and an event matches when that is a substring of its case-folded name,
  description or location. The view has no trimming step.
\<close>

definition isSpace :: "char \<Rightarrow> bool" where
  "isSpace c = (c \<in> set [CHR '' '', CHR 0x09, CHR 0x0A, CHR 0x0B, CHR 0x0C, CHR 0x0D])"

definition trim :: "string \<Rightarrow> string" where
  "trim s = rev (dropWhile isSpace (rev (dropWhile isSpace s)))"

definition searchMatches_spec :: "(string \<Rightarrow> string) \<Rightarrow> string \<Rightarrow> event \<Rightarrow> bool" where
  "searchMatches_spec lower searchQuery e =
     (let q = lower (trim searchQuery);
          has = (\<lambda>field. case field of None \<Rightarrow> False | Some s \<Rightarrow> str_includes (lower s) q)
      in has (name e) \<or> has (description e) \<or> has (location e))"

text \<open>
  What each filter selects, in the specification's terms. The empty search text selects
  every event. An event is of today when its start is a valid date whose local day starts
  at the instant at which the local day of \<open>now\<close> starts.
\<close>

definition searchSelects :: "(string \<Rightarrow> string) \<Rightarrow> string \<Rightarrow> event \<Rightarrow> bool" where
  "searchSelects lower q e =
     (q = [] \<or> fieldHas lower q (name e) \<or> fieldHas lower q (description e)
      \<or> fieldHas lower q (location e))"

definition statusSelects :: "zone \<Rightarrow> int \<Rightarrow> FilterStatus \<Rightarrow> event \<Rightarrow> bool" where
  "statusSelects z now filterStatus e =
     (case filterStatus of
        Upcoming \<Rightarrow> (\<exists>t. startAt (duration e) = Date t \<and> now < t)
      | Past \<Rightarrow> (\<exists>t. endAt (duration e) = Date t \<and> t < now)
      | Today \<Rightarrow>
          (\<exists>t. startAt (duration e) = Date t
              \<and> utc z (localDay z t * msPerDay) = utc z (localDay z now * msPerDay))
      | All \<Rightarrow> True)"

definition startsAfter :: "jsdate option \<Rightarrow> event \<Rightarrow> bool" where
  "startsAfter bound e =
     (case bound of
        None \<Rightarrow> True
      | Some lo \<Rightarrow> (\<exists>t b. startAt (duration e) = Date t \<and> lo = Date b \<and> b < t))"

definition startsBefore :: "jsdate option \<Rightarrow> event \<Rightarrow> bool" where
  "startsBefore bound e =
     (case bound of
        None \<Rightarrow> True
      | Some hi \<Rightarrow> (\<exists>t b. startAt (duration e) = Date t \<and> hi = Date b \<and> t < b))"

definition fieldsPresent :: "event \<Rightarrow> bool" where
  "fieldsPresent e = (name e \<noteq> None \<and> description e \<noteq> None \<and> location e \<noteq> None)"

text \<open>
  Local days that differ start at instants that differ: the rules of the time zone never
  put the local time 00:00 of two days at one instant.
\<close>

definition zoneOK :: "zone \<Rightarrow> bool" where
  "zoneOK z =
     (\<forall>s t. utc z (localDay z s * msPerDay) = utc z (localDay z t * msPerDay)
              \<longrightarrow> localDay z s = localDay z t)"

text \<open>
  The order each sort option asks for, and events with equal sort keys. A collation is a
  consistent comparator (ECMAScript, \<^verbatim>\<open>Array.prototype.sort\<close>) when comparing the other
  way round gives the opposite sign and "compares less or equal" is transitive;
  \<open>sortable\<close> says that the sort key of every event is there: a start date that is valid
  for the date orders, a name (and a consistent collation) for the name orders.
\<close>

fun ordered :: "(string \<Rightarrow> string \<Rightarrow> int) \<Rightarrow> SortOption \<Rightarrow> event \<Rightarrow> event \<Rightarrow> bool" where
  "ordered lc DateAsc a b =
     (\<exists>x y. startAt (duration a) = Date x \<and> startAt (duration b) = Date y \<and> x \<le> y)"
| "ordered lc DateDesc a b =
     (\<exists>x y. startAt (duration a) = Date x \<and> startAt (duration b) = Date y \<and> y \<le> x)"
| "ordered lc NameAsc a b = (\<exists>s t. name a = Some s \<and> name b = Some t \<and> lc s t \<le> 0)"
| "ordered lc NameDesc a b = (\<exists>s t. name a = Some s \<and> name b = Some t \<and> lc t s \<le> 0)"
| "ordered lc PriceAsc a b = (amount (price a) \<le> amount (price b))"
| "ordered lc PriceDesc a b = (amount (price b) \<le> amount (price a))"

definition sameKey :: "(string \<Rightarrow> string \<Rightarrow> int) \<Rightarrow> SortOption \<Rightarrow> event \<Rightarrow> event \<Rightarrow> bool" where
  "sameKey lc sortBy a b = (ordered lc sortBy a b \<and> ordered lc sortBy b a)"

definition consistentComparator :: "(string \<Rightarrow> string \<Rightarrow> int) \<Rightarrow> bool" where
  "consistentComparator lc =
     ((\<forall>s t. lc s t < 0 \<longleftrightarrow> 0 < lc t s) \<and> (\<forall>s t u. lc s t \<le> 0 \<and> lc t u \<le> 0 \<longrightarrow> lc s u \<le> 0))"

fun sortable :: "(string \<Rightarrow> string \<Rightarrow> int) \<Rightarrow> SortOption \<Rightarrow> event list \<Rightarrow> bool" where
  "sortable lc DateAsc evs = (\<forall>e\<in>set evs. startAt (duration e) \<noteq> InvalidDate)"
| "sortable lc DateDesc evs = (\<forall>e\<in>set evs. startAt (duration e) \<noteq> InvalidDate)"
| "sortable lc NameAsc evs = ((\<forall>e\<in>set evs. name e \<noteq> None) \<and> consistentComparator lc)"
| "sortable lc NameDesc evs = ((\<forall>e\<in>set evs. name e \<noteq> None) \<and> consistentComparator lc)"
| "sortable lc PriceAsc evs = True"
| "sortable lc PriceDesc evs = True"

text \<open>
  \<open>g\<close> is the grouping of the collection \<open>evs\<close>: its keys are distinct, and the bucket of
  a key is the events of \<open>evs\<close> whose start formats to the key, in their order.
\<close>

definition groupsOf :: "zone \<Rightarrow> event list \<Rightarrow> groups \<Rightarrow> bool" where
  "groupsOf z evs g =
     (distinct (map fst g) \<and>
      (\<forall>k. map_of g k =
        (if \<exists>e\<in>set evs. format_yyyy_MM_dd z (startAt (duration e)) = Inr k
         then Some (filter (\<lambda>e. format_yyyy_MM_dd z (startAt (duration e)) = Inr k) evs)
         else None)))"

text \<open>The events a page lists (lines 341 to 376), bucket after bucket.\<close>

definition pageEvents :: "(string \<times> event list option) list \<Rightarrow> event list" where
  "pageEvents page =
     concat (map (\<lambda>(date, bucket). case bucket of None \<Rightarrow> [] | Some evs \<Rightarrow> evs) page)"

subsection \<open>Sample data\<close>

text \<open>
  The environment of the examples. On text in ASCII, \<^verbatim>\<open>toLowerCase\<close> maps the letters
  \<^verbatim>\<open>A\<close> to \<^verbatim>\<open>Z\<close> to \<^verbatim>\<open>a\<close> to \<^verbatim>\<open>z\<close> and keeps every other character. The zones
  are UTC, and New York with its clock of 2024: five hours behind UTC, and four from
  2024-03-10 07:00 UTC until 2024-11-03 06:00 UTC; a local time that the clock skips or
  shows twice is read with the offset before the change.
\<close>

definition asciiLower :: "string \<Rightarrow> string" where
  "asciiLower s =
     map (\<lambda>c. let n = (of_char c :: nat) in if 65 \<le> n \<and> n \<le> 90 then char_of (n + 32) else c) s"

definition utcZone :: zone where
  "utcZone = \<lparr>localTZA = (\<lambda>t. 0), utc = (\<lambda>l. l)\<rparr>"

definition newYork :: zone where
  "newYork =
     \<lparr>localTZA = (\<lambda>t. if 1710054000000 \<le> t \<and> t < 1730613600000 then - 14400000 else - 18000000),
      utc = (\<lambda>l. if 1710039600000 \<le> l \<and> l < 1730599200000 then l + 14400000 else l + 18000000)\<rparr>"

definition mkEvent :: "string \<Rightarrow> string \<Rightarrow> int \<Rightarrow> rat \<Rightarrow> event" where
  "mkEvent i n start amt =
     \<lparr>event_id = i, name = Some n, description = Some ''Sala 2'', location = Some ''Oaxaca'',
      duration = \<lparr>startAt = Date start, endAt = Date (start + 3600000)\<rparr>,
      price = \<lparr>amount = amt, currency = ''MXN''\<rparr>\<rparr>"

text \<open>Two events of 2024-03-07, at 10:00 and at 15:00 UTC.\<close>

definition yogaClass :: event where
  "yogaClass = mkEvent ''e1'' ''Clase de Yoga'' 1709805600000 100"

definition pilates :: event where
  "pilates = mkEvent ''e2'' ''Pilates'' 1709823600000 50"

text \<open>The yoga class with its name missing, and with a start that does not parse.\<close>

definition untitled :: event where
  "untitled = yogaClass\<lparr>name := None\<rparr>"

definition undated :: event where
  "undated = yogaClass\<lparr>duration := \<lparr>startAt = InvalidDate, endAt = Date 1709809200000\<rparr>\<rparr>"

definition noRange :: DateRange where
  "noRange = \<lparr>range_from = None, range_to = None\<rparr>"

text \<open>A collation for the examples: the order of the code units.\<close>

definition codeUnitCompare :: "string \<Rightarrow> string \<Rightarrow> int" where
  "codeUnitCompare s t = (if s < t then - 1 else if s = t then 0 else 1)"

text \<open>A third event, of 2024-03-08 at 10:00 UTC, and a date range around the yoga class.\<close>

definition spinning :: event where
  "spinning = mkEvent ''e3'' ''Spinning'' 1709892000000 75"

definition marchSeventhMorning :: DateRange where
  "marchSeventhMorning =
     \<lparr>range_from = Some (Date 1709800000000), range_to = Some (Date 1709820000000)\<rparr>"


text \<open>
  Eleven workshops, one a day from 2024-03-01 at 10:00 UTC, latest first, and their
  grouping.
\<close>

definition workshop :: "nat \<Rightarrow> event" where
  "workshop n = mkEvent ''w'' ''Taller'' (1709287200000 + int n * 86400000) 10"

definition workshops :: "event list" where
  "workshops = rev (map workshop [0..<11])"

definition elevenDays :: groups where
  "elevenDays = (case groupedEvents utcZone workshops of Inl err \<Rightarrow> [] | Inr g \<Rightarrow> g)"

text \<open>
  A show of 2024-03-08 at 03:30 UTC, which is the evening of 7 March in New York. An
  instant of 3 November 2024 in New York, the day the clock goes back, with an event late
  on that local day and one late on the day before.
\<close>

definition lateShow :: event where
  "lateShow = mkEvent ''e4'' ''Noche de Jazz'' 1709868600000 120"

text \<open>The grouping of the yoga class, the show and the spinning class in New York.\<close>

definition marchGroups :: groups where
  "marchGroups = [(''2024-03-07'', [yogaClass, lateShow]), (''2024-03-08'', [spinning])]"

definition fallBackNow :: int where
  "fallBackNow = 1730608200000"

definition lateSunday :: event where
  "lateSunday = mkEvent ''e5'' ''Cierre'' 1730694600000 0"

definition lateSaturday :: event where
  "lateSaturday = mkEvent ''e6'' ''Velada'' 1730604600000 0"

section \<open>Properties\<close>

subsection \<open>The status filter\<close>

lemma isAfter_Date_iff: "isAfter d (Date n) \<longleftrightarrow> (\<exists>t. d = Date t \<and> n < t)"
  by (cases d) auto

lemma isBefore_Date_iff: "isBefore d (Date n) \<longleftrightarrow> (\<exists>t. d = Date t \<and> t < n)"
  by (cases d) auto

lemma isToday_starts:
  "isToday z now d \<longleftrightarrow>
     (\<exists>t. d = Date t \<and> utc z (localDay z t * msPerDay) = utc z (localDay z now * msPerDay))"
  by (cases d) (simp_all add: isToday_def isSameDay_def)

lemma zoneOK_start_eq:
  assumes "zoneOK z"
  shows "utc z (localDay z s * msPerDay) = utc z (localDay z t * msPerDay)
           \<longleftrightarrow> localDay z s = localDay z t"
  using assms unfolding zoneOK_def by metis

lemma isToday_iff:
  "zoneOK z \<Longrightarrow>
   isToday z now d \<longleftrightarrow> (\<exists>t. d = Date t \<and> localDay z t = localDay z now)"
  by (simp add: isToday_starts zoneOK_start_eq)

lemma statusFilter_eq:
  "statusFilter z now filterStatus evs = filter (statusSelects z now filterStatus) evs"
  by (cases filterStatus)
     (auto simp add: statusFilter_def statusSelects_def isAfter_Date_iff isBefore_Date_iff
        isToday_starts intro!: filter_cong)

lemma utcZone_OK: "zoneOK utcZone"
  by (simp add: zoneOK_def localDay_def utcZone_def msPerDay_def)

lemma newYork_day_start: "localDay newYork (utc newYork (d * msPerDay)) = d"
proof -
  consider "d \<le> 19792" | "19793 \<le> d" "d \<le> 20030" | "20031 \<le> d" by linarith
  then show ?thesis
  proof cases
    case 1
    then have u: "utc newYork (d * 86400000) = d * 86400000 + 18000000"
      by (simp add: newYork_def)
    from 1 have "localTZA newYork (d * 86400000 + 18000000) = - 18000000"
      by (simp add: newYork_def)
    with u show ?thesis by (simp add: localDay_def msPerDay_def)
  next
    case 2
    then have u: "utc newYork (d * 86400000) = d * 86400000 + 14400000"
      by (simp add: newYork_def)
    from 2 have "localTZA newYork (d * 86400000 + 14400000) = - 14400000"
      by (simp add: newYork_def)
    with u show ?thesis by (simp add: localDay_def msPerDay_def)
  next
    case 3
    then have u: "utc newYork (d * 86400000) = d * 86400000 + 18000000"
      by (simp add: newYork_def)
    from 3 have "localTZA newYork (d * 86400000 + 18000000) = - 18000000"
      by (simp add: newYork_def)
    with u show ?thesis by (simp add: localDay_def msPerDay_def)
  qed
qed

lemma newYork_OK: "zoneOK newYork"
  unfolding zoneOK_def by (metis newYork_day_start)

text \<open>
  C1. For every event collection, every instant \<open>now\<close> and every status, the status
  filter keeps exactly, and in their order, the events the status selects: under
  \<^verbatim>\<open>upcoming\<close> those whose start is a valid date strictly after \<open>now\<close>, under
  \<^verbatim>\<open>past\<close> those whose end is a valid date strictly before \<open>now\<close>, under \<^verbatim>\<open>all\<close>
  every event, and under \<^verbatim>\<open>today\<close> those whose start is a valid date whose local day
  starts at the instant at which the local day of \<open>now\<close> starts; in a time zone whose
  local days start at instants that differ, these are the events whose start is on the
  local calendar day of \<open>now\<close>.
\<close>

theorem statusFilter_keeps_exactly:
  "statusFilter z now Upcoming evs
     = filter (\<lambda>e. \<exists>t. startAt (duration e) = Date t \<and> now < t) evs \<and>
   statusFilter z now Past evs
     = filter (\<lambda>e. \<exists>t. endAt (duration e) = Date t \<and> t < now) evs \<and>
   statusFilter z now All evs = evs \<and>
   statusFilter z now Today evs
     = filter (\<lambda>e. \<exists>t. startAt (duration e) = Date t
                     \<and> utc z (localDay z t * msPerDay) = utc z (localDay z now * msPerDay)) evs \<and>
   (zoneOK z \<longrightarrow>
      statusFilter z now Today evs
        = filter (\<lambda>e. \<exists>t. startAt (duration e) = Date t \<and> localDay z t = localDay z now) evs)"
  by (simp add: statusFilter_def isAfter_Date_iff isBefore_Date_iff isToday_starts
      zoneOK_start_eq)

lemma fallBack_sample:
  "statusFilter newYork fallBackNow Today [lateSaturday, lateSunday] = [lateSunday]"
  "localDay newYork fallBackNow = 20030"
  "localDay utcZone fallBackNow = 20030"
  "startAt (duration lateSunday) = Date 1730694600000"
  "localDay newYork 1730694600000 = 20030"
  "localDay utcZone 1730694600000 = 20031"
  "startAt (duration lateSaturday) = Date 1730604600000"
  "localDay newYork 1730604600000 = 20029"
  "localDay utcZone 1730604600000 = 20030"
  by code_simp+

theorem statusFilter_keeps_exactly_witness:
  "zoneOK newYork \<and>
   statusFilter newYork fallBackNow Today [lateSaturday, lateSunday] = [lateSunday] \<and>
   filter (\<lambda>e. \<exists>t. startAt (duration e) = Date t
                 \<and> localDay newYork t = localDay newYork fallBackNow)
     [lateSaturday, lateSunday] = [lateSunday] \<and>
   localDay newYork fallBackNow = 20030 \<and>
   localDay newYork 1730694600000 = 20030 \<and> localDay utcZone 1730694600000 = 20031 \<and>
   localDay newYork 1730604600000 = 20029 \<and> localDay utcZone 1730604600000 = 20030"
proof -
  from statusFilter_keeps_exactly [of newYork fallBackNow "[lateSaturday, lateSunday]"]
    newYork_OK
  have "statusFilter newYork fallBackNow Today [lateSaturday, lateSunday]
        = filter (\<lambda>e. \<exists>t. startAt (duration e) = Date t
                 \<and> localDay newYork t = localDay newYork fallBackNow)
            [lateSaturday, lateSunday]"
    by blast
  with fallBack_sample newYork_OK show ?thesis by simp
qed

subsection \<open>The search filter\<close>

lemma startsWith_iff: "startsWith s q \<longleftrightarrow> (\<exists>r. s = q @ r)"
  by (induction s q rule: startsWith.induct) auto

lemma occursIn_Cons:
  "occursIn q (a # s) \<longleftrightarrow> (\<exists>r. a # s = q @ r) \<or> occursIn q s"
  unfolding occursIn_def
proof
  assume "\<exists>p r. a # s = p @ q @ r"
  then obtain p r where pr: "a # s = p @ q @ r" by blast
  show "(\<exists>r. a # s = q @ r) \<or> (\<exists>p r. s = p @ q @ r)"
  proof (cases p)
    case Nil
    with pr show ?thesis by auto
  next
    case (Cons b p')
    with pr have "s = p' @ q @ r" by simp
    then show ?thesis by blast
  qed
next
  assume "(\<exists>r. a # s = q @ r) \<or> (\<exists>p r. s = p @ q @ r)"
  then show "\<exists>p r. a # s = p @ q @ r"
  proof
    assume "\<exists>r. a # s = q @ r"
    then obtain r where "a # s = [] @ q @ r" by auto
    then show ?thesis by blast
  next
    assume "\<exists>p r. s = p @ q @ r"
    then obtain p r where "a # s = (a # p) @ q @ r" by auto
    then show ?thesis by blast
  qed
qed

lemma str_includes_iff: "str_includes s q \<longleftrightarrow> occursIn q s"
proof (induction s)
  case Nil
  then show ?case by (auto simp: occursIn_def)
next
  case (Cons a s)
  then show ?case by (simp add: startsWith_iff occursIn_Cons)
qed

lemma filterE_total: "\<forall>x\<in>set xs. p x = Inr (P x) \<Longrightarrow> filterE p xs = Inr (filter P xs)"
  by (induction xs) auto

lemma fieldIncludes_Some:
  "fieldIncludes lower (Some s) (lower q) = Inr (fieldHas lower q (Some s))"
  by (simp add: fieldIncludes_def fieldHas_def str_includes_iff)

lemma matchesSearch_present:
  assumes "fieldsPresent e"
  shows "matchesSearch lower (lower q) e
           = Inr (fieldHas lower q (name e) \<or> fieldHas lower q (description e)
                  \<or> fieldHas lower q (location e))"
proof -
  from assms obtain n d l where f: "name e = Some n" "description e = Some d" "location e = Some l"
    by (auto simp: fieldsPresent_def)
  show ?thesis
    by (simp add: matchesSearch_def f fieldIncludes_Some split: bool.splits)
qed

lemma searchFilter_Nil: "searchFilter lower [] evs = Inr evs"
  by (simp add: searchFilter_def)

lemma searchFilter_present:
  assumes present: "\<forall>e\<in>set evs. fieldsPresent e"
  shows "searchFilter lower searchQuery evs = Inr (filter (searchSelects lower searchQuery) evs)"
proof (cases "searchQuery = []")
  case True
  then have "filter (searchSelects lower searchQuery) evs = evs"
    by (simp add: searchSelects_def)
  with True show ?thesis by (simp add: searchFilter_def)
next
  case False
  have "\<forall>e\<in>set evs. matchesSearch lower (lower searchQuery) e
          = Inr (searchSelects lower searchQuery e)"
    using present False by (simp add: matchesSearch_present searchSelects_def)
  then have "filterE (matchesSearch lower (lower searchQuery)) evs
               = Inr (filter (searchSelects lower searchQuery) evs)"
    by (rule filterE_total)
  with False show ?thesis by (simp add: searchFilter_def)
qed

text \<open>
  C2, as the specification states it, fails: the view does not trim the search text. The
  trimmed, case-folded text \<^verbatim>\<open>yoga\<close> is a substring of the case-folded name of the yoga
  class, and the search filter drops the class for the search text \<^verbatim>\<open>"yoga "\<close>. Nor
  does the filter return for every collection: with a search text, an event with no name
  makes it throw.
\<close>

theorem searchFilter_trim_counterexample:
  "searchMatches_spec asciiLower ''yoga '' yogaClass \<and>
   searchFilter asciiLower ''yoga '' [yogaClass] = Inr [] \<and>
   searchFilter asciiLower ''yoga'' [untitled] = Inl TypeError"
  by code_simp

text \<open>
  C2, amended. The empty search text keeps every event. For any other search text and a
  collection whose events have a name, a description and a location, the search filter
  keeps exactly the events for which the search text, not trimmed and case-folded by
  \<^verbatim>\<open>toLowerCase\<close>, is a substring of the name, the description or the location,
  case-folded by \<^verbatim>\<open>toLowerCase\<close>.
\<close>

theorem searchFilter_untrimmed:
  "(searchQuery = [] \<longrightarrow> searchFilter lower searchQuery evs = Inr evs) \<and>
   (searchQuery \<noteq> [] \<and>
    (\<forall>e\<in>set evs. name e \<noteq> None \<and> description e \<noteq> None \<and> location e \<noteq> None) \<longrightarrow>
      searchFilter lower searchQuery evs =
        Inr (filter (\<lambda>e. fieldHas lower searchQuery (name e)
                        \<or> fieldHas lower searchQuery (description e)
                        \<or> fieldHas lower searchQuery (location e)) evs))"
proof (intro conjI impI)
  assume "searchQuery = []"
  then show "searchFilter lower searchQuery evs = Inr evs" by (simp add: searchFilter_Nil)
next
  assume a: "searchQuery \<noteq> [] \<and>
    (\<forall>e\<in>set evs. name e \<noteq> None \<and> description e \<noteq> None \<and> location e \<noteq> None)"
  then have "\<forall>e\<in>set evs. fieldsPresent e" by (simp add: fieldsPresent_def)
  then have "searchFilter lower searchQuery evs
      = Inr (filter (searchSelects lower searchQuery) evs)"
    by (rule searchFilter_present)
  with a show "searchFilter lower searchQuery evs =
        Inr (filter (\<lambda>e. fieldHas lower searchQuery (name e)
                        \<or> fieldHas lower searchQuery (description e)
                        \<or> fieldHas lower searchQuery (location e)) evs)"
    by (simp add: searchSelects_def [abs_def])
qed

lemma searchFilter_sample:
  "searchFilter asciiLower ''YOGA'' [yogaClass, pilates] = Inr [yogaClass]"
  by code_simp

lemma samples_present: "fieldsPresent yogaClass" "fieldsPresent pilates"
  by (simp_all add: fieldsPresent_def yogaClass_def pilates_def mkEvent_def)

theorem searchFilter_untrimmed_witness:
  "''YOGA'' \<noteq> [] \<and>
   name yogaClass \<noteq> None \<and> description yogaClass \<noteq> None \<and> location yogaClass \<noteq> None \<and>
   name pilates \<noteq> None \<and> description pilates \<noteq> None \<and> location pilates \<noteq> None \<and>
   searchFilter asciiLower [] [yogaClass, pilates] = Inr [yogaClass, pilates] \<and>
   filter (\<lambda>e. fieldHas asciiLower ''YOGA'' (name e) \<or> fieldHas asciiLower ''YOGA'' (description e)
                 \<or> fieldHas asciiLower ''YOGA'' (location e)) [yogaClass, pilates] = [yogaClass]"
proof -
  have present: "\<forall>e\<in>set [yogaClass, pilates].
      name e \<noteq> None \<and> description e \<noteq> None \<and> location e \<noteq> None"
    using samples_present by (simp add: fieldsPresent_def)
  have nonempty: "''YOGA'' \<noteq> []" by simp
  from searchFilter_untrimmed [of "''YOGA''" asciiLower "[yogaClass, pilates]"] present nonempty
  have "searchFilter asciiLower ''YOGA'' [yogaClass, pilates] =
          Inr (filter (\<lambda>e. fieldHas asciiLower ''YOGA'' (name e)
                 \<or> fieldHas asciiLower ''YOGA'' (description e)
                 \<or> fieldHas asciiLower ''YOGA'' (location e)) [yogaClass, pilates])"
    by blast
  moreover from searchFilter_untrimmed [of "[]" asciiLower "[yogaClass, pilates]"]
  have "searchFilter asciiLower [] [yogaClass, pilates] = Inr [yogaClass, pilates]" by blast
  ultimately show ?thesis
    using present searchFilter_sample by simp
qed

subsection \<open>The date range, and the filters together\<close>

lemma isAfter_iff: "isAfter d lo \<longleftrightarrow> (\<exists>t b. d = Date t \<and> lo = Date b \<and> b < t)"
  by (cases d; cases lo) auto

lemma isBefore_iff: "isBefore d hi \<longleftrightarrow> (\<exists>t b. d = Date t \<and> hi = Date b \<and> t < b)"
  by (cases d; cases hi) auto

lemma dateRangeFilter_eq:
  "dateRangeFilter dateRange evs =
     filter (\<lambda>e. startsAfter (range_from dateRange) e \<and> startsBefore (range_to dateRange) e) evs"
  by (cases "range_from dateRange"; cases "range_to dateRange")
     (simp_all add: dateRangeFilter_def startsAfter_def startsBefore_def isAfter_iff
        isBefore_iff conj_commute)

lemma filterStage_eq:
  "filterStage lower z now q st dr evs =
     (case searchFilter lower q evs of
        Inl err \<Rightarrow> Inl err
      | Inr found \<Rightarrow>
          Inr (filter (\<lambda>e. statusSelects z now st e \<and> startsAfter (range_from dr) e
                          \<and> startsBefore (range_to dr) e) found))"
  by (simp add: filterStage_def statusFilter_eq dateRangeFilter_eq conj_commute conj_left_commute
        split: sum.splits)

lemma filterStage_present:
  assumes "\<forall>e\<in>set evs. fieldsPresent e"
  shows "filterStage lower z now q st dr evs =
           Inr (filter (\<lambda>e. searchSelects lower q e \<and> statusSelects z now st e
                           \<and> startsAfter (range_from dr) e \<and> startsBefore (range_to dr) e) evs)"
  by (simp add: filterStage_eq searchFilter_present [OF assms])

lemma filterStage_no_search:
  "filterStage lower z now [] st dr evs =
     Inr (filter (\<lambda>e. statusSelects z now st e \<and> startsAfter (range_from dr) e
                     \<and> startsBefore (range_to dr) e) evs)"
  by (simp add: filterStage_eq searchFilter_Nil)

lemma sortWith_Nil: "sortWith cmp [] = Inr []"
  by (simp add: sortWith_def)

lemma filteredEvents_no_data: "filteredEvents lower lc z now None q st dr sb = Inr []"
  by (simp add: filteredEvents_def)

lemma filteredEvents_empty: "filteredEvents lower lc z now (Some []) q st dr sb = Inr []"
  by (simp add: filteredEvents_def filterStage_def searchFilter_def statusFilter_def
      dateRangeFilter_def sortStage_def sortWith_Nil split: option.splits)

text \<open>
  C7. The date-range filter keeps exactly the events whose start is strictly after the
  lower bound, when one is set, and strictly before the upper bound, when one is set.
  The filter stage keeps the events that pass the status filter and both bounds, and,
  with a search text, the search filter as well (for events whose text fields are set).
  A collection that is undefined or empty gives the empty result.
\<close>

theorem dateRange_bounds_and_conjunction:
  "dateRangeFilter dateRange evs =
     filter (\<lambda>e. startsAfter (range_from dateRange) e \<and> startsBefore (range_to dateRange) e) evs \<and>
   filterStage lower z now [] filterStatus dateRange evs =
     Inr (filter (\<lambda>e. statusSelects z now filterStatus e
                     \<and> startsAfter (range_from dateRange) e
                     \<and> startsBefore (range_to dateRange) e) evs) \<and>
   ((\<forall>e\<in>set evs. fieldsPresent e) \<longrightarrow>
      filterStage lower z now searchQuery filterStatus dateRange evs =
        Inr (filter (\<lambda>e. searchSelects lower searchQuery e \<and> statusSelects z now filterStatus e
                        \<and> startsAfter (range_from dateRange) e
                        \<and> startsBefore (range_to dateRange) e) evs)) \<and>
   filteredEvents lower lc z now None searchQuery filterStatus dateRange sortBy = Inr [] \<and>
   filteredEvents lower lc z now (Some []) searchQuery filterStatus dateRange sortBy = Inr []"
  by (intro conjI impI dateRangeFilter_eq filterStage_no_search filterStage_present
      filteredEvents_no_data filteredEvents_empty)

lemma filterStage_sample:
  "filterStage asciiLower utcZone 0 ''oaxaca'' All marchSeventhMorning [yogaClass, pilates]
     = Inr [yogaClass]"
  by code_simp

theorem dateRange_bounds_and_conjunction_witness:
  "fieldsPresent yogaClass \<and> fieldsPresent pilates \<and>
   filterStage asciiLower utcZone 0 ''oaxaca'' All marchSeventhMorning [yogaClass, pilates]
     = Inr [yogaClass] \<and>
   filter (\<lambda>e. searchSelects asciiLower ''oaxaca'' e \<and> statusSelects utcZone 0 All e
                 \<and> startsAfter (range_from marchSeventhMorning) e
                 \<and> startsBefore (range_to marchSeventhMorning) e) [yogaClass, pilates]
     = [yogaClass]"
proof -
  have present: "\<forall>e\<in>set [yogaClass, pilates]. fieldsPresent e"
    using samples_present by simp
  from dateRange_bounds_and_conjunction
    [where dateRange = marchSeventhMorning and evs = "[yogaClass, pilates]" and z = utcZone
       and now = 0 and filterStatus = All and searchQuery = "''oaxaca''"
       and lower = asciiLower] present
  have "filterStage asciiLower utcZone 0 ''oaxaca'' All marchSeventhMorning [yogaClass, pilates] =
        Inr (filter (\<lambda>e. searchSelects asciiLower ''oaxaca'' e \<and> statusSelects utcZone 0 All e
                 \<and> startsAfter (range_from marchSeventhMorning) e
                 \<and> startsBefore (range_to marchSeventhMorning) e) [yogaClass, pilates])"
    by blast
  then show ?thesis
    using samples_present filterStage_sample by simp
qed

subsection \<open>The sort stage\<close>

lemma insertBy_total:
  "\<forall>y\<in>set rs. \<exists>v. cmp x y = Inr v \<Longrightarrow> \<exists>r. insertBy cmp x rs = Inr r"
proof (induction rs)
  case Nil
  then show ?case by simp
next
  case (Cons y rs)
  then obtain v where v: "cmp x y = Inr v" by auto
  from Cons obtain r where "insertBy cmp x rs = Inr r" by auto
  with v show ?case by simp
qed

lemma insertBy_mset: "insertBy cmp x rs = Inr r \<Longrightarrow> mset r = add_mset x (mset rs)"
proof (induction rs arbitrary: r)
  case Nil
  then show ?case by auto
next
  case (Cons y rs)
  show ?case
  proof (cases "cmp x y")
    case (Inl e)
    with Cons.prems show ?thesis by simp
  next
    case (Inr v)
    show ?thesis
    proof (cases "v < 0")
      case False
      with Inr Cons.prems show ?thesis by auto
    next
      case True
      show ?thesis
      proof (cases "insertBy cmp x rs")
        case (Inl e)
        with Inr True Cons.prems show ?thesis by simp
      next
        case (Inr r')
        with \<open>cmp x y = Inr v\<close> True Cons.prems have "r = y # r'" by simp
        with Cons.IH [OF Inr] show ?thesis by simp
      qed
    qed
  qed
qed

lemma sortLoop_mset: "sortLoop cmp xs rs = Inr r \<Longrightarrow> mset r = mset rs + mset xs"
proof (induction xs arbitrary: rs)
  case Nil
  then show ?case by auto
next
  case (Cons x xs)
  then obtain rs' where rs': "insertBy cmp x rs = Inr rs'" "sortLoop cmp xs rs' = Inr r"
    by (auto split: sum.splits)
  from Cons.IH [OF rs'(2)] insertBy_mset [OF rs'(1)] show ?case by simp
qed

lemma sortWith_mset: "sortWith cmp xs = Inr r \<Longrightarrow> mset r = mset xs"
  unfolding sortWith_def by (drule sortLoop_mset) simp

lemma sortLoop_total:
  assumes "\<forall>a\<in>S. \<forall>b\<in>S. \<exists>v. cmp a b = Inr v" "set xs \<subseteq> S" "set rs \<subseteq> S"
  shows "\<exists>r. sortLoop cmp xs rs = Inr r"
  using assms(2,3)
proof (induction xs arbitrary: rs)
  case Nil
  then show ?case by simp
next
  case (Cons x xs)
  then have xS: "x \<in> S" and xsS: "set xs \<subseteq> S" by simp_all
  from assms(1) xS Cons.prems(2) have "\<forall>y\<in>set rs. \<exists>v. cmp x y = Inr v" by blast
  then have "\<exists>r. insertBy cmp x rs = Inr r" by (rule insertBy_total)
  then obtain rs' where rs': "insertBy cmp x rs = Inr rs'" ..
  from insertBy_mset [OF rs'] have "set rs' = insert x (set rs)"
    by (metis mset.simps(2) set_mset_mset list.set(2))
  with xS Cons.prems(2) have "set rs' \<subseteq> S" by simp
  from Cons.IH [OF xsS this] rs' show ?case by simp
qed

lemma sortWith_total:
  assumes "\<forall>a\<in>set xs. \<forall>b\<in>set xs. \<exists>v. cmp a b = Inr v"
  shows "\<exists>r. sortWith cmp xs = Inr r"
  unfolding sortWith_def
  by (rule sortLoop_total [where S = "set xs"]) (use assms in simp_all)

lemma insertBy_split:
  assumes "\<forall>y\<in>set rs. \<exists>v. cmp x y = Inr v \<and> (v < 0 \<longleftrightarrow> lt x y)"
  shows "\<exists>qs ps. rs = qs @ ps \<and> insertBy cmp x rs = Inr (qs @ x # ps)
           \<and> (\<forall>q\<in>set qs. lt x q) \<and> (ps = [] \<or> \<not> lt x (hd ps))"
  using assms
proof (induction rs)
  case Nil
  then show ?case by simp
next
  case (Cons y rs)
  then obtain v where v: "cmp x y = Inr v" "v < 0 \<longleftrightarrow> lt x y" by auto
  show ?case
  proof (cases "v < 0")
    case False
    with v have "y # rs = [] @ (y # rs) \<and> insertBy cmp x (y # rs) = Inr ([] @ x # y # rs)
        \<and> (\<forall>q\<in>set []. lt x q) \<and> (y # rs = [] \<or> \<not> lt x (hd (y # rs)))"
      by simp
    then show ?thesis by blast
  next
    case True
    from Cons obtain qs ps where ih: "rs = qs @ ps" "insertBy cmp x rs = Inr (qs @ x # ps)"
        "\<forall>q\<in>set qs. lt x q" "ps = [] \<or> \<not> lt x (hd ps)"
      by auto
    with v True have "y # rs = (y # qs) @ ps
        \<and> insertBy cmp x (y # rs) = Inr ((y # qs) @ x # ps)
        \<and> (\<forall>q\<in>set (y # qs). lt x q) \<and> (ps = [] \<or> \<not> lt x (hd ps))"
      by simp
    then show ?thesis by blast
  qed
qed

lemma insertBy_sorted_stable:
  assumes x: "x \<in> S" and sub: "set rs \<subseteq> S" and sorted: "sorted_wrt le (rev rs)"
    and cmp: "\<forall>a\<in>S. \<forall>b\<in>S. \<exists>v. cmp a b = Inr v \<and> (v < 0 \<longleftrightarrow> \<not> le b a)"
    and total: "\<forall>a\<in>S. \<forall>b\<in>S. le a b \<or> le b a"
    and trans: "\<forall>a\<in>S. \<forall>b\<in>S. \<forall>c\<in>S. le a b \<longrightarrow> le b c \<longrightarrow> le a c"
  shows "\<exists>r. insertBy cmp x rs = Inr r \<and> set r \<subseteq> S \<and> sorted_wrt le (rev r)
           \<and> (\<forall>P. (\<forall>a\<in>S. \<forall>b\<in>S. P a \<longrightarrow> P b \<longrightarrow> le a b)
                  \<longrightarrow> filter P (rev r) = filter P (rev rs) @ filter P [x])"
proof -
  have "\<forall>y\<in>set rs. \<exists>v. cmp x y = Inr v \<and> (v < 0 \<longleftrightarrow> \<not> le y x)"
    using cmp x sub by blast
  then have "\<exists>qs ps. rs = qs @ ps \<and> insertBy cmp x rs = Inr (qs @ x # ps)
           \<and> (\<forall>q\<in>set qs. \<not> le q x) \<and> (ps = [] \<or> \<not> \<not> le (hd ps) x)"
    by (rule insertBy_split [where lt = "\<lambda>a b. \<not> le b a" and cmp = cmp and x = x and rs = rs])
  then obtain qs ps where
    sp: "rs = qs @ ps" "insertBy cmp x rs = Inr (qs @ x # ps)"
        "\<forall>q\<in>set qs. \<not> le q x" "ps = [] \<or> le (hd ps) x"
    by blast
  let ?r = "qs @ x # ps"
  have in1: "set qs \<subseteq> S" and in2: "set ps \<subseteq> S"
    using sub sp(1) by auto
  have rS: "set ?r \<subseteq> S" using in1 in2 x by simp
  have after: "\<forall>q\<in>set qs. le x q"
    using total sp(3) in1 x by blast
  from sorted sp(1) have s: "sorted_wrt le (rev ps)" "sorted_wrt le (rev qs)"
      "\<forall>p\<in>set ps. \<forall>q\<in>set qs. le p q"
    by (simp_all add: sorted_wrt_append)
  have before: "\<forall>p\<in>set ps. le p x"
  proof (cases ps)
    case Nil
    then show ?thesis by simp
  next
    case (Cons h t)
    with sp(4) have hx: "le h x" by simp
    from s(1) Cons have ht: "\<forall>p\<in>set t. le p h" by (simp add: sorted_wrt_append)
    have hS: "h \<in> S" and tS: "set t \<subseteq> S" using in2 Cons by auto
    have "\<forall>p\<in>set t. le p x"
    proof
      fix p assume p: "p \<in> set t"
      with ht have "le p h" by simp
      moreover have "p \<in> S" using tS p by blast
      ultimately show "le p x" using hx trans x hS by blast
    qed
    with hx Cons show ?thesis by simp
  qed
  have sorted': "sorted_wrt le (rev ?r)"
    using s before after by (simp add: sorted_wrt_append)
  have stable: "filter P (rev ?r) = filter P (rev rs) @ filter P [x]"
    if P: "\<forall>a\<in>S. \<forall>b\<in>S. P a \<longrightarrow> P b \<longrightarrow> le a b" for P
  proof (cases "P x")
    case True
    have "\<forall>q\<in>set qs. \<not> P q"
      using P True sp(3) in1 x by blast
    then have "filter P (rev qs) = []" by simp
    with True sp(1) show ?thesis by simp
  next
    case False
    with sp(1) show ?thesis by simp
  qed
  show ?thesis
  proof (intro exI conjI allI impI)
    show "insertBy cmp x rs = Inr ?r" by (rule sp(2))
    show "set ?r \<subseteq> S" by (rule rS)
    show "sorted_wrt le (rev ?r)" by (rule sorted')
    show "filter P (rev ?r) = filter P (rev rs) @ filter P [x]"
      if "\<forall>a\<in>S. \<forall>b\<in>S. P a \<longrightarrow> P b \<longrightarrow> le a b" for P
      using that by (rule stable)
  qed
qed

lemma sortLoop_props_on:
  assumes cmp: "\<forall>a\<in>S. \<forall>b\<in>S. \<exists>v. cmp a b = Inr v \<and> (v < 0 \<longleftrightarrow> \<not> le b a)"
    and total: "\<forall>a\<in>S. \<forall>b\<in>S. le a b \<or> le b a"
    and trans: "\<forall>a\<in>S. \<forall>b\<in>S. \<forall>c\<in>S. le a b \<longrightarrow> le b c \<longrightarrow> le a c"
    and sub: "set xs \<subseteq> S" "set rs \<subseteq> S" and sorted: "sorted_wrt le (rev rs)"
  shows "\<exists>r. sortLoop cmp xs rs = Inr r \<and> sorted_wrt le r
           \<and> (\<forall>P. (\<forall>a\<in>S. \<forall>b\<in>S. P a \<longrightarrow> P b \<longrightarrow> le a b)
                  \<longrightarrow> filter P r = filter P (rev rs) @ filter P xs)"
  using sub sorted
proof (induction xs arbitrary: rs)
  case Nil
  then show ?case by simp
next
  case (Cons x xs)
  then have xS: "x \<in> S" and xsS: "set xs \<subseteq> S" by simp_all
  from insertBy_sorted_stable [OF xS Cons.prems(2) Cons.prems(3) cmp total trans] obtain rs' where
    r0: "insertBy cmp x rs = Inr rs' \<and> set rs' \<subseteq> S \<and> sorted_wrt le (rev rs')
           \<and> (\<forall>P. (\<forall>a\<in>S. \<forall>b\<in>S. P a \<longrightarrow> P b \<longrightarrow> le a b)
                  \<longrightarrow> filter P (rev rs') = filter P (rev rs) @ filter P [x])"
    ..
  then have rs': "insertBy cmp x rs = Inr rs'" "set rs' \<subseteq> S" "sorted_wrt le (rev rs')"
    by simp_all
  from Cons.IH [OF xsS rs'(2) rs'(3)] obtain r where
    r1: "sortLoop cmp xs rs' = Inr r \<and> sorted_wrt le r
           \<and> (\<forall>P. (\<forall>a\<in>S. \<forall>b\<in>S. P a \<longrightarrow> P b \<longrightarrow> le a b)
                  \<longrightarrow> filter P r = filter P (rev rs') @ filter P xs)"
    ..
  show ?case
  proof (intro exI conjI allI impI)
    show "sortLoop cmp (x # xs) rs = Inr r" using rs'(1) r1 by simp
    show "sorted_wrt le r" using r1 by simp
    show "filter P r = filter P (rev rs) @ filter P (x # xs)"
      if P: "\<forall>a\<in>S. \<forall>b\<in>S. P a \<longrightarrow> P b \<longrightarrow> le a b" for P
    proof -
      from r1 P have "filter P r = filter P (rev rs') @ filter P xs" by blast
      moreover from r0 P have "filter P (rev rs') = filter P (rev rs) @ filter P [x]" by blast
      ultimately show ?thesis by simp
    qed
  qed
qed

lemma sortWith_props_on:
  assumes sub: "set xs \<subseteq> S"
    and cmp: "\<forall>a\<in>S. \<forall>b\<in>S. \<exists>v. cmp a b = Inr v \<and> (v < 0 \<longleftrightarrow> \<not> le b a)"
    and total: "\<forall>a\<in>S. \<forall>b\<in>S. le a b \<or> le b a"
    and trans: "\<forall>a\<in>S. \<forall>b\<in>S. \<forall>c\<in>S. le a b \<longrightarrow> le b c \<longrightarrow> le a c"
  shows "\<exists>r. sortWith cmp xs = Inr r \<and> mset r = mset xs \<and> sorted_wrt le r
           \<and> (\<forall>P. (\<forall>a\<in>S. \<forall>b\<in>S. P a \<longrightarrow> P b \<longrightarrow> le a b) \<longrightarrow> filter P r = filter P xs)"
proof -
  have "\<exists>r. sortLoop cmp xs [] = Inr r \<and> sorted_wrt le r
           \<and> (\<forall>P. (\<forall>a\<in>S. \<forall>b\<in>S. P a \<longrightarrow> P b \<longrightarrow> le a b)
                  \<longrightarrow> filter P r = filter P (rev []) @ filter P xs)"
    by (rule sortLoop_props_on [OF cmp total trans sub]) simp_all
  then obtain r where r: "sortLoop cmp xs [] = Inr r" "sorted_wrt le r"
    and st: "\<forall>P. (\<forall>a\<in>S. \<forall>b\<in>S. P a \<longrightarrow> P b \<longrightarrow> le a b)
                  \<longrightarrow> filter P r = filter P (rev []) @ filter P xs"
    by blast
  from r(1) have "sortWith cmp xs = Inr r" by (simp add: sortWith_def)
  moreover from this have "mset r = mset xs" by (rule sortWith_mset)
  moreover from st have "\<forall>P. (\<forall>a\<in>S. \<forall>b\<in>S. P a \<longrightarrow> P b \<longrightarrow> le a b)
      \<longrightarrow> filter P r = filter P xs"
    by simp
  ultimately show ?thesis using r(2) by blast
qed

lemma stable_sorted_unique:
  assumes total: "\<forall>a\<in>S. \<forall>b\<in>S. le a b \<or> le b a"
    and "set r \<subseteq> S" "mset r = mset r'" "sorted_wrt le r" "sorted_wrt le r'"
    and "\<forall>a\<in>S. filter (\<lambda>b. le a b \<and> le b a) r = filter (\<lambda>b. le a b \<and> le b a) r'"
  shows "r = r'"
  using assms(2-)
proof (induction r arbitrary: r')
  case Nil
  then show ?case by simp
next
  case (Cons a t)
  from Cons.prems(2) have "r' \<noteq> []" by auto
  then obtain a' t' where r': "r' = a' # t'" by (cases r') auto
  from Cons.prems(1) have aS: "a \<in> S" and tS: "set t \<subseteq> S" by simp_all
  from Cons.prems(2) have sets: "set (a # t) = set r'" by (rule mset_eq_setD)
  with r' aS tS have a'S: "a' \<in> S" by auto
  have aa: "le a a" using total aS by blast
  have "a' \<in> set (a # t)" using sets r' by auto
  with Cons.prems(3) aa have le1: "le a a'" by auto
  have "a \<in> set (a' # t')" using sets r' by auto
  moreover have "le a' a'" using total a'S by blast
  ultimately have le2: "le a' a" using Cons.prems(4) r' by auto
  from Cons.prems(5) aS have "filter (\<lambda>b. le a b \<and> le b a) (a # t)
      = filter (\<lambda>b. le a b \<and> le b a) (a' # t')"
    using r' by blast
  with aa le1 le2 have heads: "a = a'" by simp
  have tails: "\<forall>b\<in>S. filter (\<lambda>c. le b c \<and> le c b) t = filter (\<lambda>c. le b c \<and> le c b) t'"
  proof
    fix b assume "b \<in> S"
    with Cons.prems(5) have "filter (\<lambda>c. le b c \<and> le c b) (a # t)
        = filter (\<lambda>c. le b c \<and> le c b) (a # t')"
      using r' heads by blast
    then show "filter (\<lambda>c. le b c \<and> le c b) t = filter (\<lambda>c. le b c \<and> le c b) t'"
      by (cases "le b a \<and> le a b") simp_all
  qed
  have "mset t = mset t'" using Cons.prems(2) r' heads by simp
  moreover have "sorted_wrt le t" "sorted_wrt le t'" using Cons.prems(3,4) r' by simp_all
  ultimately have "t = t'" using Cons.IH tS tails by blast
  with heads r' show ?case by simp
qed

lemma sortable_valid:
  assumes "sortable lc sortBy evs" "sortBy = DateAsc \<or> sortBy = DateDesc" "a \<in> set evs"
  shows "\<exists>x. startAt (duration a) = Date x"
proof -
  from assms(1,2) have "\<forall>e\<in>set evs. startAt (duration e) \<noteq> InvalidDate" by auto
  with assms(3) have "startAt (duration a) \<noteq> InvalidDate" by blast
  then show ?thesis by (cases "startAt (duration a)") auto
qed

lemma sortable_named:
  assumes "sortable lc sortBy evs" "sortBy = NameAsc \<or> sortBy = NameDesc" "a \<in> set evs"
  shows "\<exists>s. name a = Some s"
proof -
  from assms(1,2) have "\<forall>e\<in>set evs. name e \<noteq> None" by auto
  with assms(3) have "name a \<noteq> None" by blast
  then show ?thesis by auto
qed

lemma sortable_consistent:
  assumes "sortable lc sortBy evs" "sortBy = NameAsc \<or> sortBy = NameDesc"
  shows "consistentComparator lc"
  using assms by auto

lemma consistent_sign:
  assumes "consistentComparator lc"
  shows "lc s t < 0 \<longleftrightarrow> \<not> lc t s \<le> 0"
proof -
  from assms have "lc s t < 0 \<longleftrightarrow> 0 < lc t s"
    unfolding consistentComparator_def by blast
  then show ?thesis by linarith
qed

lemma consistent_total:
  assumes "consistentComparator lc"
  shows "lc s t \<le> 0 \<or> lc t s \<le> 0"
  using consistent_sign [OF assms, of t s] by linarith

lemma consistent_trans:
  assumes "consistentComparator lc" "lc s t \<le> 0" "lc t u \<le> 0"
  shows "lc s u \<le> 0"
proof -
  from assms(1) have "\<forall>s t u. lc s t \<le> 0 \<and> lc t u \<le> 0 \<longrightarrow> lc s u \<le> 0"
    unfolding consistentComparator_def by blast
  with assms(2,3) show ?thesis by blast
qed

lemma timeDiff_less: "timeDiff (Date x) (Date y) < 0 \<longleftrightarrow> x < y"
  by (simp add: timeDiff_def)

lemma compareEvents_ordered:
  assumes "sortable lc sortBy evs" "a \<in> set evs" "b \<in> set evs"
  shows "\<exists>v. compareEvents lc sortBy a b = Inr v \<and> (v < 0 \<longleftrightarrow> \<not> ordered lc sortBy b a)"
proof (cases sortBy)
  case DateAsc
  with assms obtain x y where "startAt (duration a) = Date x" "startAt (duration b) = Date y"
    using sortable_valid [of lc sortBy evs] by blast
  with DateAsc show ?thesis by (auto simp: timeDiff_less)
next
  case DateDesc
  with assms obtain x y where "startAt (duration a) = Date x" "startAt (duration b) = Date y"
    using sortable_valid [of lc sortBy evs] by blast
  with DateDesc show ?thesis by (auto simp: timeDiff_less)
next
  case NameAsc
  with assms obtain s t where st: "name a = Some s" "name b = Some t"
    using sortable_named [of lc sortBy evs] by blast
  have "consistentComparator lc" using assms(1) NameAsc by simp
  from consistent_sign [OF this, of s t] NameAsc st show ?thesis
    by (simp add: localeCompare_def)
next
  case NameDesc
  with assms obtain s t where st: "name a = Some s" "name b = Some t"
    using sortable_named [of lc sortBy evs] by blast
  have "consistentComparator lc" using assms(1) NameDesc by simp
  from consistent_sign [OF this, of t s] NameDesc st show ?thesis
    by (simp add: localeCompare_def)
next
  case PriceAsc
  then show ?thesis by auto
next
  case PriceDesc
  then show ?thesis by auto
qed

lemma ordered_total:
  assumes "sortable lc sortBy evs" "a \<in> set evs" "b \<in> set evs"
  shows "ordered lc sortBy a b \<or> ordered lc sortBy b a"
proof (cases sortBy)
  case DateAsc
  with assms obtain x y where "startAt (duration a) = Date x" "startAt (duration b) = Date y"
    using sortable_valid [of lc sortBy evs] by blast
  with DateAsc show ?thesis by auto
next
  case DateDesc
  with assms obtain x y where "startAt (duration a) = Date x" "startAt (duration b) = Date y"
    using sortable_valid [of lc sortBy evs] by blast
  with DateDesc show ?thesis by auto
next
  case NameAsc
  with assms obtain s t where st: "name a = Some s" "name b = Some t"
    using sortable_named [of lc sortBy evs] by blast
  have "consistentComparator lc" using assms(1) NameAsc by simp
  from consistent_total [OF this, of s t] NameAsc st show ?thesis by auto
next
  case NameDesc
  with assms obtain s t where st: "name a = Some s" "name b = Some t"
    using sortable_named [of lc sortBy evs] by blast
  have "consistentComparator lc" using assms(1) NameDesc by simp
  from consistent_total [OF this, of s t] NameDesc st show ?thesis by auto
next
  case PriceAsc
  then show ?thesis by auto
next
  case PriceDesc
  then show ?thesis by auto
qed

lemma ordered_trans:
  assumes "sortable lc sortBy evs" "ordered lc sortBy a b" "ordered lc sortBy b c"
  shows "ordered lc sortBy a c"
proof (cases sortBy)
  case DateAsc
  with assms show ?thesis by auto
next
  case DateDesc
  with assms show ?thesis by auto
next
  case NameAsc
  with assms obtain s t u where n: "name a = Some s" "name b = Some t" "name c = Some u"
      and le: "lc s t \<le> 0" "lc t u \<le> 0"
    by auto
  have "consistentComparator lc" using assms(1) NameAsc by simp
  from consistent_trans [OF this le] NameAsc n show ?thesis by simp
next
  case NameDesc
  with assms obtain s t u where n: "name a = Some s" "name b = Some t" "name c = Some u"
      and le: "lc t s \<le> 0" "lc u t \<le> 0"
    by auto
  have "consistentComparator lc" using assms(1) NameDesc by simp
  from consistent_trans [OF this le(2) le(1)] NameDesc n show ?thesis by simp
next
  case PriceAsc
  with assms show ?thesis by auto
next
  case PriceDesc
  with assms show ?thesis by auto
qed

lemma sortStage_sortable:
  assumes ok: "sortable lc sortBy evs"
  shows "\<exists>r. sortStage lc sortBy evs = Inr r \<and> mset r = mset evs
           \<and> sorted_wrt (ordered lc sortBy) r
           \<and> (\<forall>a\<in>set evs. filter (sameKey lc sortBy a) r = filter (sameKey lc sortBy a) evs)"
proof -
  let ?S = "set evs" and ?le = "ordered lc sortBy" and ?cmp = "compareEvents lc sortBy"
  have cmp: "\<forall>a\<in>?S. \<forall>b\<in>?S. \<exists>v. ?cmp a b = Inr v \<and> (v < 0 \<longleftrightarrow> \<not> ?le b a)"
    using compareEvents_ordered [OF ok] by blast
  have total: "\<forall>a\<in>?S. \<forall>b\<in>?S. ?le a b \<or> ?le b a"
    using ordered_total [OF ok] by blast
  have trans: "\<forall>a\<in>?S. \<forall>b\<in>?S. \<forall>c\<in>?S. ?le a b \<longrightarrow> ?le b c \<longrightarrow> ?le a c"
    using ordered_trans [OF ok] by blast
  have "\<exists>r. sortWith ?cmp evs = Inr r \<and> mset r = mset evs \<and> sorted_wrt ?le r
           \<and> (\<forall>P. (\<forall>a\<in>?S. \<forall>b\<in>?S. P a \<longrightarrow> P b \<longrightarrow> ?le a b) \<longrightarrow> filter P r = filter P evs)"
    by (rule sortWith_props_on [where S = ?S and le = ?le, OF subset_refl cmp total trans])
  then obtain r where r: "sortWith ?cmp evs = Inr r" "mset r = mset evs" "sorted_wrt ?le r"
    and st: "\<forall>P. (\<forall>a\<in>?S. \<forall>b\<in>?S. P a \<longrightarrow> P b \<longrightarrow> ?le a b) \<longrightarrow> filter P r = filter P evs"
    by blast
  have "filter (sameKey lc sortBy a) r = filter (sameKey lc sortBy a) evs" if a: "a \<in> ?S" for a
  proof -
    have "\<forall>b\<in>?S. \<forall>c\<in>?S. sameKey lc sortBy a b \<longrightarrow> sameKey lc sortBy a c \<longrightarrow> ?le b c"
      using ordered_trans [OF ok] by (auto simp: sameKey_def)
    with st show ?thesis by blast
  qed
  with r show ?thesis by (simp add: sortStage_def)
qed

lemma sortStage_unique:
  assumes ok: "sortable lc sortBy evs"
    and r': "mset r' = mset evs" "sorted_wrt (ordered lc sortBy) r'"
      "\<forall>a\<in>set evs. filter (sameKey lc sortBy a) r' = filter (sameKey lc sortBy a) evs"
    and r: "mset r = mset evs" "sorted_wrt (ordered lc sortBy) r"
      "\<forall>a\<in>set evs. filter (sameKey lc sortBy a) r = filter (sameKey lc sortBy a) evs"
  shows "r' = r"
proof (rule stable_sorted_unique [where S = "set evs" and le = "ordered lc sortBy"])
  show "\<forall>a\<in>set evs. \<forall>b\<in>set evs. ordered lc sortBy a b \<or> ordered lc sortBy b a"
    using ordered_total [OF ok] by blast
  show "set r' \<subseteq> set evs" using mset_eq_setD [OF r'(1)] by simp
  show "mset r' = mset r" using r'(1) r(1) by simp
  show "sorted_wrt (ordered lc sortBy) r'" by (rule r'(2))
  show "sorted_wrt (ordered lc sortBy) r" by (rule r(2))
  show "\<forall>a\<in>set evs. filter (\<lambda>b. ordered lc sortBy a b \<and> ordered lc sortBy b a) r'
      = filter (\<lambda>b. ordered lc sortBy a b \<and> ordered lc sortBy b a) r"
    using r'(3) r(3) by (simp add: sameKey_def [abs_def])
qed

lemma codeUnitCompare_consistent: "consistentComparator codeUnitCompare"
  unfolding consistentComparator_def codeUnitCompare_def
  by (auto split: if_splits)

lemma undated_start: "startAt (duration undated) = InvalidDate"
  by (simp add: undated_def)

text \<open>
  C3, as the specification states it, fails. Under the status \<^verbatim>\<open>all\<close> an event whose
  start does not parse reaches the sort stage; its time value is \<^verbatim>\<open>NaN\<close>, the
  comparator of the date orders answers \<^verbatim>\<open>NaN\<close> for it, and the sort leaves the event
  of 8 March in front of the event of 7 March. No arrangement of the three events is
  ordered by start time.
\<close>

theorem sortStage_invalid_date_counterexample:
  "filteredEvents asciiLower codeUnitCompare utcZone 0 (Some [spinning, undated, pilates]) []
      All noRange DateAsc = Inr [spinning, undated, pilates] \<and>
   startAt (duration spinning) = Date 1709892000000 \<and>
   startAt (duration pilates) = Date 1709823600000 \<and>
   \<not> sorted_wrt (ordered codeUnitCompare DateAsc) [spinning, undated, pilates] \<and>
   \<not> sorted_wrt (ordered codeUnitCompare DateAsc) [spinning, pilates, undated] \<and>
   \<not> sorted_wrt (ordered codeUnitCompare DateAsc) [undated, spinning, pilates] \<and>
   \<not> sorted_wrt (ordered codeUnitCompare DateAsc) [undated, pilates, spinning] \<and>
   \<not> sorted_wrt (ordered codeUnitCompare DateAsc) [pilates, spinning, undated] \<and>
   \<not> sorted_wrt (ordered codeUnitCompare DateAsc) [pilates, undated, spinning]"
proof -
  have "filteredEvents asciiLower codeUnitCompare utcZone 0 (Some [spinning, undated, pilates]) []
      All noRange DateAsc = Inr [spinning, undated, pilates]"
    by code_simp
  moreover have "startAt (duration spinning) = Date 1709892000000"
    "startAt (duration pilates) = Date 1709823600000"
    by (simp_all add: spinning_def pilates_def mkEvent_def)
  ultimately show ?thesis
    by (auto simp add: undated_start)
qed

text \<open>
  C3, amended. When the sort key of every event of the filtered collection is there (a
  start that is a valid date for the date orders; a name, and a collation that is a
  consistent comparator, for the name orders; nothing for the price orders), the sort
  stage returns a rearrangement of the collection that is ordered by the chosen key in
  the chosen direction, in which the events with the same key as any given event keep
  their order; it is the only such arrangement. Under \<^verbatim>\<open>price-desc\<close>, two events priced
  100 and 50 come out as the one priced 100, then the one priced 50, whatever their order
  before and whatever their names.
\<close>

theorem sortStage_stable_total_order:
  "(sortable lc sortBy filtered \<longrightarrow>
      (\<exists>r. sortStage lc sortBy filtered = Inr r \<and> mset r = mset filtered
           \<and> sorted_wrt (ordered lc sortBy) r
           \<and> (\<forall>a\<in>set filtered.
                 filter (sameKey lc sortBy a) r = filter (sameKey lc sortBy a) filtered)
           \<and> (\<forall>r'. mset r' = mset filtered \<and> sorted_wrt (ordered lc sortBy) r'
                  \<and> (\<forall>a\<in>set filtered.
                        filter (sameKey lc sortBy a) r' = filter (sameKey lc sortBy a) filtered)
                  \<longrightarrow> r' = r))) \<and>
   (amount (price a) = 100 \<and> amount (price b) = 50 \<longrightarrow>
      sortStage lc PriceDesc [a, b] = Inr [a, b] \<and> sortStage lc PriceDesc [b, a] = Inr [a, b])"
proof (intro conjI impI)
  assume ok: "sortable lc sortBy filtered"
  from sortStage_sortable [OF ok] obtain r where
    r: "sortStage lc sortBy filtered = Inr r" "mset r = mset filtered"
       "sorted_wrt (ordered lc sortBy) r"
       "\<forall>a\<in>set filtered.
          filter (sameKey lc sortBy a) r = filter (sameKey lc sortBy a) filtered"
    by blast
  have "r' = r"
    if "mset r' = mset filtered \<and> sorted_wrt (ordered lc sortBy) r'
        \<and> (\<forall>a\<in>set filtered.
              filter (sameKey lc sortBy a) r' = filter (sameKey lc sortBy a) filtered)" for r'
    using that sortStage_unique [OF ok _ _ _ r(2) r(3) r(4)] by blast
  with r show "\<exists>r. sortStage lc sortBy filtered = Inr r \<and> mset r = mset filtered
           \<and> sorted_wrt (ordered lc sortBy) r
           \<and> (\<forall>a\<in>set filtered.
                 filter (sameKey lc sortBy a) r = filter (sameKey lc sortBy a) filtered)
           \<and> (\<forall>r'. mset r' = mset filtered \<and> sorted_wrt (ordered lc sortBy) r'
                  \<and> (\<forall>a\<in>set filtered.
                        filter (sameKey lc sortBy a) r' = filter (sameKey lc sortBy a) filtered)
                  \<longrightarrow> r' = r)"
    by blast
next
  assume "amount (price a) = 100 \<and> amount (price b) = 50"
  then show "sortStage lc PriceDesc [a, b] = Inr [a, b]"
    by (simp add: sortStage_def sortWith_def)
next
  assume "amount (price a) = 100 \<and> amount (price b) = 50"
  then show "sortStage lc PriceDesc [b, a] = Inr [a, b]"
    by (simp add: sortStage_def sortWith_def)
qed

lemma sortStage_sample:
  "sortStage codeUnitCompare NameAsc [pilates, yogaClass] = Inr [yogaClass, pilates]"
  by code_simp

lemma sample_prices: "amount (price yogaClass) = 100" "amount (price pilates) = 50"
  by (simp_all add: yogaClass_def pilates_def mkEvent_def)

theorem sortStage_stable_total_order_witness:
  "sortable codeUnitCompare NameAsc [pilates, yogaClass] \<and>
   sortStage codeUnitCompare NameAsc [pilates, yogaClass] = Inr [yogaClass, pilates] \<and>
   sorted_wrt (ordered codeUnitCompare NameAsc) [yogaClass, pilates] \<and>
   amount (price yogaClass) = 100 \<and> amount (price pilates) = 50 \<and>
   sortStage codeUnitCompare PriceDesc [pilates, yogaClass] = Inr [yogaClass, pilates]"
proof -
  have ok: "sortable codeUnitCompare NameAsc [pilates, yogaClass]"
    using samples_present codeUnitCompare_consistent by (simp add: fieldsPresent_def)
  note inst = sortStage_stable_total_order
    [of codeUnitCompare NameAsc "[pilates, yogaClass]" yogaClass pilates]
  from inst ok obtain r where
    r: "sortStage codeUnitCompare NameAsc [pilates, yogaClass] = Inr r"
       "sorted_wrt (ordered codeUnitCompare NameAsc) r"
    by blast
  from r(1) have "r = [yogaClass, pilates]" by (simp add: sortStage_sample)
  with r(2) have "sorted_wrt (ordered codeUnitCompare NameAsc) [yogaClass, pilates]" by simp
  moreover from inst sample_prices
  have "sortStage codeUnitCompare PriceDesc [pilates, yogaClass] = Inr [yogaClass, pilates]"
    by blast
  ultimately show ?thesis
    using ok sortStage_sample sample_prices by simp
qed

subsection \<open>The counters\<close>

lemma compareEvents_returns:
  assumes "sortBy \<noteq> NameAsc" "sortBy \<noteq> NameDesc"
  shows "\<exists>v. compareEvents lc sortBy a b = Inr v"
  using assms by (cases sortBy) simp_all

lemma sortStage_length: "sortStage lc sortBy evs = Inr r \<Longrightarrow> length r = length evs"
  unfolding sortStage_def by (drule sortWith_mset) (rule mset_eq_length)

lemma sortStage_returns:
  assumes "sortBy \<noteq> NameAsc" "sortBy \<noteq> NameDesc"
  shows "\<exists>r. sortStage lc sortBy evs = Inr r"
  unfolding sortStage_def
  by (rule sortWith_total) (simp add: compareEvents_returns [OF assms])

lemma filterStage_default:
  "filterStage lower z now [] st noRange evs = Inr (statusFilter z now st evs)"
  by (simp add: filterStage_def searchFilter_Nil dateRangeFilter_def noRange_def)

lemma filteredEvents_default_length:
  assumes "filteredEvents lower lc z now events [] st noRange sortBy = Inr r"
  shows "length r = (case events of None \<Rightarrow> 0 | Some evs \<Rightarrow> length (statusFilter z now st evs))"
proof (cases events)
  case None
  with assms show ?thesis by (simp add: filteredEvents_def)
next
  case (Some evs)
  with assms have "sortStage lc sortBy (statusFilter z now st evs) = Inr r"
    by (simp add: filteredEvents_def filterStage_default)
  then have "length r = length (statusFilter z now st evs)" by (rule sortStage_length)
  with Some show ?thesis by simp
qed

lemma filteredEvents_default_returns:
  assumes "sortBy \<noteq> NameAsc" "sortBy \<noteq> NameDesc"
  shows "\<exists>r. filteredEvents lower lc z now events [] st noRange sortBy = Inr r"
proof (cases events)
  case None
  then show ?thesis by (simp add: filteredEvents_def)
next
  case (Some evs)
  from sortStage_returns [OF assms] obtain r where
    "sortStage lc sortBy (statusFilter z now st evs) = Inr r" by blast
  with Some show ?thesis by (simp add: filteredEvents_def filterStage_default)
qed

lemma upcoming_count:
  "(case events of None \<Rightarrow> 0 | Some evs \<Rightarrow> length (statusFilter z now Upcoming evs))
     = totalUpcomingEvents now events"
  by (simp add: totalUpcomingEvents_def statusFilter_def split: option.splits)

lemma today_count:
  "(case events of None \<Rightarrow> 0 | Some evs \<Rightarrow> length (statusFilter z now Today evs))
     = todayEvents z now events"
  by (simp add: todayEvents_def statusFilter_def split: option.splits)

text \<open>
  C10. With the empty search text and no date range, and with \<open>now\<close> the same instant
  for both, the filter stage under \<^verbatim>\<open>upcoming\<close> returns as many events as the
  upcoming counter counts in the unfiltered collection, and under \<^verbatim>\<open>today\<close> as many
  as the today counter. Under the default order, by date ascending, the stage does
  return; under any order it either returns that many events or throws, which only a
  name order can.
\<close>

theorem default_filter_length_is_counter:
  "(\<exists>r. filteredEvents lower lc z now events [] Upcoming noRange DateAsc = Inr r
        \<and> length r = totalUpcomingEvents now events) \<and>
   (\<exists>r. filteredEvents lower lc z now events [] Today noRange DateAsc = Inr r
        \<and> length r = todayEvents z now events) \<and>
   (case filteredEvents lower lc z now events [] Upcoming noRange sortBy of
      Inl err \<Rightarrow> sortBy = NameAsc \<or> sortBy = NameDesc
    | Inr r \<Rightarrow> length r = totalUpcomingEvents now events) \<and>
   (case filteredEvents lower lc z now events [] Today noRange sortBy of
      Inl err \<Rightarrow> sortBy = NameAsc \<or> sortBy = NameDesc
    | Inr r \<Rightarrow> length r = todayEvents z now events)"
proof (intro conjI)
  have "\<exists>r. filteredEvents lower lc z now events [] Upcoming noRange DateAsc = Inr r"
    by (rule filteredEvents_default_returns) simp_all
  then obtain r where
    r: "filteredEvents lower lc z now events [] Upcoming noRange DateAsc = Inr r" ..
  from filteredEvents_default_length [OF r] upcoming_count
  have "length r = totalUpcomingEvents now events" by simp
  with r show "\<exists>r. filteredEvents lower lc z now events [] Upcoming noRange DateAsc = Inr r
        \<and> length r = totalUpcomingEvents now events" by blast
next
  have "\<exists>r. filteredEvents lower lc z now events [] Today noRange DateAsc = Inr r"
    by (rule filteredEvents_default_returns) simp_all
  then obtain r where
    r: "filteredEvents lower lc z now events [] Today noRange DateAsc = Inr r" ..
  from filteredEvents_default_length [OF r] today_count
  have "length r = todayEvents z now events" by simp
  with r show "\<exists>r. filteredEvents lower lc z now events [] Today noRange DateAsc = Inr r
        \<and> length r = todayEvents z now events" by blast
next
  show "case filteredEvents lower lc z now events [] Upcoming noRange sortBy of
      Inl err \<Rightarrow> sortBy = NameAsc \<or> sortBy = NameDesc
    | Inr r \<Rightarrow> length r = totalUpcomingEvents now events"
  proof (cases "filteredEvents lower lc z now events [] Upcoming noRange sortBy")
    case (Inl err)
    with filteredEvents_default_returns [of sortBy lower lc z now events Upcoming]
    show ?thesis by auto
  next
    case (Inr r)
    from filteredEvents_default_length [OF Inr] upcoming_count Inr show ?thesis by simp
  qed
next
  show "case filteredEvents lower lc z now events [] Today noRange sortBy of
      Inl err \<Rightarrow> sortBy = NameAsc \<or> sortBy = NameDesc
    | Inr r \<Rightarrow> length r = todayEvents z now events"
  proof (cases "filteredEvents lower lc z now events [] Today noRange sortBy")
    case (Inl err)
    with filteredEvents_default_returns [of sortBy lower lc z now events Today]
    show ?thesis by auto
  next
    case (Inr r)
    from filteredEvents_default_length [OF Inr] today_count Inr show ?thesis by simp
  qed
qed

subsection \<open>The group stage\<close>

lemma pushGroup_keys:
  "map fst (pushGroup d e g) = (if d \<in> fst ` set g then map fst g else map fst g @ [d])"
proof (induction g)
  case Nil
  then show ?case by simp
next
  case (Cons kv g)
  obtain k bucket where kv: "kv = (k, bucket)" by (cases kv)
  show ?case
  proof (cases "k = d")
    case True
    with kv show ?thesis by simp
  next
    case False
    then have "d \<in> fst ` set (kv # g) \<longleftrightarrow> d \<in> fst ` set g"
      using kv by auto
    with False kv Cons show ?thesis by simp
  qed
qed

lemma pushGroup_map_of:
  "map_of (pushGroup d e g) =
     (map_of g)(d \<mapsto> (case map_of g d of None \<Rightarrow> [e] | Some bucket \<Rightarrow> bucket @ [e]))"
  by (induction g) (auto simp: fun_eq_iff)

lemma pushGroup_distinct: "distinct (map fst g) \<Longrightarrow> distinct (map fst (pushGroup d e g))"
  by (simp add: pushGroup_keys)

lemma pushGroup_mset:
  "mset (concat (map snd (pushGroup d e g))) = add_mset e (mset (concat (map snd g)))"
  by (induction g) auto

lemma groupsOf_push:
  assumes inv: "groupsOf z evs g" and key: "format_yyyy_MM_dd z (startAt (duration e)) = Inr d"
  shows "groupsOf z (evs @ [e]) (pushGroup d e g)"
  unfolding groupsOf_def
proof (intro conjI allI)
  from inv show "distinct (map fst (pushGroup d e g))"
    by (simp add: groupsOf_def pushGroup_distinct)
next
  fix k
  let ?K = "\<lambda>e. format_yyyy_MM_dd z (startAt (duration e))"
  from inv have m: "map_of g k = (if \<exists>e\<in>set evs. ?K e = Inr k
         then Some (filter (\<lambda>e. ?K e = Inr k) evs) else None)" for k
    by (simp add: groupsOf_def)
  show "map_of (pushGroup d e g) k =
        (if \<exists>e\<in>set (evs @ [e]). ?K e = Inr k
         then Some (filter (\<lambda>e. ?K e = Inr k) (evs @ [e])) else None)"
  proof (cases "k = d")
    case True
    show ?thesis
    proof (cases "\<exists>x\<in>set evs. ?K x = Inr d")
      case True
      with \<open>k = d\<close> key m [of d] show ?thesis by (simp add: pushGroup_map_of)
    next
      case False
      then have "filter (\<lambda>e. ?K e = Inr d) evs = []" by (simp add: filter_empty_conv)
      with False \<open>k = d\<close> key m [of d] show ?thesis by (simp add: pushGroup_map_of)
    qed
  next
    case False
    with key have "?K e \<noteq> Inr k" by simp
    with False m [of k] show ?thesis by (simp add: pushGroup_map_of)
  qed
qed

lemma groupLoop_groupsOf:
  assumes "\<forall>e\<in>set evs. startAt (duration e) \<noteq> InvalidDate" "groupsOf z done g"
  shows "\<exists>g'. groupLoop z evs g = Inr g' \<and> groupsOf z (done @ evs) g'
            \<and> mset (concat (map snd g')) = mset (concat (map snd g)) + mset evs"
  using assms
proof (induction evs arbitrary: g "done")
  case Nil
  then show ?case by simp
next
  case (Cons e evs)
  then obtain t where t: "startAt (duration e) = Date t"
    by (cases "startAt (duration e)") auto
  then have key: "format_yyyy_MM_dd z (startAt (duration e)) = Inr (dayKey z t)" by simp
  from groupsOf_push [OF Cons.prems(2) key]
  have inv: "groupsOf z (done @ [e]) (pushGroup (dayKey z t) e g)" .
  from Cons.prems(1) have rest: "\<forall>e\<in>set evs. startAt (duration e) \<noteq> InvalidDate" by simp
  from Cons.IH [OF rest inv] obtain g' where
    g': "groupLoop z evs (pushGroup (dayKey z t) e g) = Inr g'"
        "groupsOf z ((done @ [e]) @ evs) g'"
        "mset (concat (map snd g')) =
           mset (concat (map snd (pushGroup (dayKey z t) e g))) + mset evs"
    by blast
  from g'(1) key have "groupLoop z (e # evs) g = Inr g'" by simp
  moreover from g'(2) have "groupsOf z (done @ e # evs) g'" by simp
  moreover from g'(3) have "mset (concat (map snd g')) = mset (concat (map snd g)) + mset (e # evs)"
    by (simp add: pushGroup_mset)
  ultimately show ?case by blast
qed

lemma groupedEvents_groupsOf:
  assumes "\<forall>e\<in>set evs. startAt (duration e) \<noteq> InvalidDate"
  shows "\<exists>g. groupedEvents z evs = Inr g \<and> groupsOf z evs g
            \<and> mset (concat (map snd g)) = mset evs"
proof (cases "evs = []")
  case True
  then show ?thesis by (simp add: groupedEvents_def groupsOf_def)
next
  case False
  have "groupsOf z [] []" by (simp add: groupsOf_def)
  from groupLoop_groupsOf [OF assms this] False show ?thesis
    by (simp add: groupedEvents_def)
qed


lemma groupLoop_valid:
  "groupLoop z evs g = Inr g' \<Longrightarrow> \<forall>e\<in>set evs. startAt (duration e) \<noteq> InvalidDate"
proof (induction evs arbitrary: g)
  case Nil
  then show ?case by simp
next
  case (Cons e evs)
  show ?case
  proof (cases "startAt (duration e)")
    case InvalidDate
    with Cons.prems show ?thesis by simp
  next
    case (Date t)
    with Cons.prems have "groupLoop z evs (pushGroup (dayKey z t) e g) = Inr g'" by simp
    from Cons.IH [OF this] Date show ?thesis by simp
  qed
qed

lemma groupedEvents_valid:
  "groupedEvents z evs = Inr g \<Longrightarrow> \<forall>e\<in>set evs. startAt (duration e) \<noteq> InvalidDate"
  by (cases "evs = []") (auto simp: groupedEvents_def dest: groupLoop_valid)

lemma groupedEvents_Inr_groupsOf:
  assumes "groupedEvents z evs = Inr g"
  shows "groupsOf z evs g"
  using groupedEvents_groupsOf [OF groupedEvents_valid [OF assms], of z] assms by auto


lemma same_day_same_key:
  "localDay z s = localDay z t \<Longrightarrow> format_yyyy_MM_dd z (Date s) = format_yyyy_MM_dd z (Date t)"
  by (simp add: dayKey_def)

text \<open>
  C4, as the specification states it, fails. Under the status \<^verbatim>\<open>all\<close> the filter and
  sort stages hand on an event whose start does not parse, and on that event the group
  stage throws a \<^verbatim>\<open>RangeError\<close>: there is no mapping.
\<close>

theorem groupedEvents_invalid_date_counterexample:
  "filteredEvents asciiLower codeUnitCompare utcZone 0 (Some [yogaClass, undated]) []
      All noRange DateAsc = Inr [yogaClass, undated] \<and>
   groupedEvents utcZone [yogaClass, undated] = Inl RangeError"
  by code_simp

text \<open>
  C4, amended. When every event of the sorted collection has a valid start date, the group
  stage returns a mapping with distinct keys in which the bucket of a key is exactly the
  events whose start formats (\<^verbatim>\<open>yyyy-MM-dd\<close>, in the time zone of the browser) to that
  key, in their order in the collection, and a key that no event formats to is not set;
  the buckets together hold exactly the events of the collection, each as often as the
  collection does. Two starts on the same local day format to the same key. The empty
  collection gives the empty mapping.
\<close>

theorem groupedEvents_partition:
  "((\<forall>e\<in>set filtered. startAt (duration e) \<noteq> InvalidDate) \<longrightarrow>
      (\<exists>g. groupedEvents z filtered = Inr g \<and> distinct (map fst g) \<and>
           (\<forall>k. map_of g k =
              (if \<exists>e\<in>set filtered. format_yyyy_MM_dd z (startAt (duration e)) = Inr k
               then Some (filter (\<lambda>e. format_yyyy_MM_dd z (startAt (duration e)) = Inr k)
                            filtered)
               else None)) \<and>
           mset (concat (map snd g)) = mset filtered)) \<and>
   (\<forall>s t. localDay z s = localDay z t \<longrightarrow>
      format_yyyy_MM_dd z (Date s) = format_yyyy_MM_dd z (Date t)) \<and>
   groupedEvents z [] = Inr []"
proof (intro conjI impI allI)
  assume "\<forall>e\<in>set filtered. startAt (duration e) \<noteq> InvalidDate"
  then have "\<exists>g. groupedEvents z filtered = Inr g \<and> groupsOf z filtered g
            \<and> mset (concat (map snd g)) = mset filtered"
    by (rule groupedEvents_groupsOf)
  then show "\<exists>g. groupedEvents z filtered = Inr g \<and> distinct (map fst g) \<and>
           (\<forall>k. map_of g k =
              (if \<exists>e\<in>set filtered. format_yyyy_MM_dd z (startAt (duration e)) = Inr k
               then Some (filter (\<lambda>e. format_yyyy_MM_dd z (startAt (duration e)) = Inr k)
                            filtered)
               else None)) \<and>
           mset (concat (map snd g)) = mset filtered"
    unfolding groupsOf_def by blast
next
  fix s t
  assume "localDay z s = localDay z t"
  then show "format_yyyy_MM_dd z (Date s) = format_yyyy_MM_dd z (Date t)"
    by (rule same_day_same_key)
next
  show "groupedEvents z [] = Inr []" by (simp add: groupedEvents_def)
qed

lemma groupedEvents_sample:
  "groupedEvents newYork [yogaClass, lateShow, spinning] = Inr marchGroups"
  by code_simp

lemma groupedEvents_sample_utc:
  "groupedEvents utcZone [yogaClass, lateShow, spinning]
     = Inr [(''2024-03-07'', [yogaClass]), (''2024-03-08'', [lateShow, spinning])]"
  by code_simp

lemma samples_valid:
  "startAt (duration yogaClass) \<noteq> InvalidDate" "startAt (duration pilates) \<noteq> InvalidDate"
  "startAt (duration spinning) \<noteq> InvalidDate" "startAt (duration lateShow) \<noteq> InvalidDate"
  by (simp_all add: yogaClass_def pilates_def spinning_def lateShow_def mkEvent_def)

lemma sample_days:
  "startAt (duration yogaClass) = Date 1709805600000"
  "startAt (duration lateShow) = Date 1709868600000"
  "localDay newYork 1709805600000 = localDay newYork 1709868600000"
  by (simp_all add: yogaClass_def lateShow_def mkEvent_def localDay_def newYork_def
        utcZone_def msPerDay_def)

theorem groupedEvents_partition_witness:
  "startAt (duration yogaClass) \<noteq> InvalidDate \<and> startAt (duration lateShow) \<noteq> InvalidDate \<and>
   startAt (duration spinning) \<noteq> InvalidDate \<and>
   groupedEvents newYork [yogaClass, lateShow, spinning]
     = Inr [(''2024-03-07'', [yogaClass, lateShow]), (''2024-03-08'', [spinning])] \<and>
   map_of marchGroups ''2024-03-07'' =
     Some (filter (\<lambda>e. format_yyyy_MM_dd newYork (startAt (duration e)) = Inr ''2024-03-07'')
             [yogaClass, lateShow, spinning]) \<and>
   mset (concat (map snd marchGroups)) = mset [yogaClass, lateShow, spinning] \<and>
   localDay newYork 1709805600000 = localDay newYork 1709868600000 \<and>
   format_yyyy_MM_dd newYork (startAt (duration yogaClass))
     = format_yyyy_MM_dd newYork (startAt (duration lateShow)) \<and>
   groupedEvents utcZone [yogaClass, lateShow, spinning]
     = Inr [(''2024-03-07'', [yogaClass]), (''2024-03-08'', [lateShow, spinning])]"
proof -
  have valid: "\<forall>e\<in>set [yogaClass, lateShow, spinning]. startAt (duration e) \<noteq> InvalidDate"
    using samples_valid by simp
  note inst = groupedEvents_partition [of "[yogaClass, lateShow, spinning]" newYork]
  from inst valid
  obtain g where g: "groupedEvents newYork [yogaClass, lateShow, spinning] = Inr g"
    and m: "\<forall>k. map_of g k =
              (if \<exists>e\<in>set [yogaClass, lateShow, spinning].
                    format_yyyy_MM_dd newYork (startAt (duration e)) = Inr k
               then Some (filter (\<lambda>e. format_yyyy_MM_dd newYork (startAt (duration e)) = Inr k)
                            [yogaClass, lateShow, spinning])
               else None)"
    and ms: "mset (concat (map snd g)) = mset [yogaClass, lateShow, spinning]"
    by blast
  from g have eq: "g = marchGroups" by (simp add: groupedEvents_sample)
  have "map_of marchGroups ''2024-03-07'' \<noteq> None" by (simp add: marchGroups_def)
  with m eq have bucket: "map_of marchGroups ''2024-03-07'' =
     Some (filter (\<lambda>e. format_yyyy_MM_dd newYork (startAt (duration e)) = Inr ''2024-03-07'')
             [yogaClass, lateShow, spinning])"
    by metis
  from inst sample_days(3)
  have "format_yyyy_MM_dd newYork (Date 1709805600000)
          = format_yyyy_MM_dd newYork (Date 1709868600000)"
    by blast
  then have key: "format_yyyy_MM_dd newYork (startAt (duration yogaClass))
     = format_yyyy_MM_dd newYork (startAt (duration lateShow))"
    by (simp only: sample_days)
  have sample: "groupedEvents newYork [yogaClass, lateShow, spinning]
     = Inr [(''2024-03-07'', [yogaClass, lateShow]), (''2024-03-08'', [spinning])]"
    using groupedEvents_sample by (simp add: marchGroups_def)
  from bucket ms eq key sample samples_valid sample_days(3) groupedEvents_sample_utc
  show ?thesis by simp
qed

subsection \<open>Pagination\<close>

lemma take_min_length: "take (min a (length ys)) ys = take a ys"
  by (cases "a \<le> length ys") (simp_all add: min_def)

lemma slice_from_nat: "slice xs (int n) (int n + 10) = take 10 (drop n xs)"
proof (cases "n \<le> length xs")
  case True
  then have k: "min (int n) (int (length xs)) = int n" by simp
  have "nat (min (int n + 10) (int (length xs)) - int n) = min 10 (length xs - n)"
    using True by (simp add: min_def) linarith
  then have "slice xs (int n) (int n + 10) = take (min 10 (length (drop n xs))) (drop n xs)"
    unfolding slice_def Let_def k by simp
  then show ?thesis by (simp only: take_min_length)
next
  case False
  then have k: "min (int n) (int (length xs)) = int (length xs)" by simp
  from False have "drop (length xs) xs = []" "drop n xs = []" by simp_all
  then show ?thesis unfolding slice_def Let_def k by simp
qed

lemma slice_page:
  assumes "1 \<le> p"
  shows "slice xs ((p - 1) * eventsPerPage) (p * eventsPerPage)
           = take 10 (drop (nat ((p - 1) * 10)) xs)"
proof -
  define n where "n = nat ((p - 1) * 10)"
  have "(p - 1) * eventsPerPage = int n" "p * eventsPerPage = int n + 10"
    using assms by (simp_all add: n_def eventsPerPage_def)
  then show ?thesis by (simp only: slice_from_nat n_def [symmetric])
qed

lemma page_keys:
  "map fst (paginatedGroupedEvents g p)
     = slice (sort (map fst g)) ((p - 1) * eventsPerPage) (p * eventsPerPage)"
  by (simp add: paginatedGroupedEvents_def Let_def comp_def)

lemma page_entries:
  "paginatedGroupedEvents g p = map (\<lambda>k. (k, map_of g k)) (map fst (paginatedGroupedEvents g p))"
  by (simp add: paginatedGroupedEvents_def Let_def comp_def)

lemma totalPages_div: "totalPages g = (int (length g) + 9) div 10"
proof -
  have "totalPages g = \<lceil>(of_int (int (length g)) :: rat) / of_int 10\<rceil>"
    by (simp add: totalPages_def eventsPerPage_def)
  also have "\<dots> = - (- int (length g) div 10)"
    by (rule ceiling_divide_eq_div)
  also have "\<dots> = (int (length g) + 9) div 10" by presburger
  finally show ?thesis .
qed

lemma chunks_concat:
  "concat (map (\<lambda>i. take c (drop (i * c) xs)) [0..<n]) = take (n * c) xs"
proof (induction n)
  case 0
  then show ?case by simp
next
  case (Suc n)
  have "take (n * c) xs @ take c (drop (n * c) xs) = take (n * c + c) xs"
    by (simp add: take_add)
  with Suc show ?case by (simp add: add.commute)
qed

lemma upto_from_1: "[1..int n] = map (\<lambda>i. int i + 1) [0..<n]"
proof (induction n)
  case 0
  then show ?case by simp
next
  case (Suc n)
  have "[1..int (Suc n)] = [1..int n] @ [int n + 1]"
    by (simp add: upto_rec2)
  with Suc show ?case by simp
qed


lemma set_slice: "set (slice xs a b) \<subseteq> set xs"
  unfolding slice_def Let_def
  by (meson set_take_subset set_drop_subset subset_trans)

lemma page_entry:
  assumes "(k, v) \<in> set (paginatedGroupedEvents g p)"
  shows "\<exists>bucket. v = Some bucket \<and> map_of g k = Some bucket \<and> (k, bucket) \<in> set g"
proof -
  from assms have v: "v = map_of g k"
    and k: "k \<in> set (slice (sort (map fst g)) ((p - 1) * eventsPerPage) (p * eventsPerPage))"
    by (auto simp: paginatedGroupedEvents_def Let_def)
  from k set_slice [of "sort (map fst g)"] have "k \<in> set (sort (map fst g))" by blast
  then have "k \<in> fst ` set g" by simp
  then obtain bucket where b: "map_of g k = Some bucket"
    by (cases "map_of g k") (auto simp: map_of_eq_None_iff)
  then have "(k, bucket) \<in> set g" by (rule map_of_SomeD)
  with v b show ?thesis by simp
qed

lemma page_sorted:
  assumes "1 \<le> p"
  shows "sorted (map fst (paginatedGroupedEvents g p))"
  unfolding page_keys slice_page [OF assms]
  by (intro sorted_wrt_take sorted_wrt_drop sorted_sort)

lemma totalPages_ceiling: "totalPages g = \<lceil>real (length g) / 10\<rceil>"
proof -
  have "\<lceil>real (length g) / 10\<rceil> = \<lceil>(of_int (int (length g)) :: real) / of_int 10\<rceil>" by simp
  also have "\<dots> = - (- int (length g) div 10)" by (rule ceiling_divide_eq_div)
  also have "\<dots> = (int (length g) + 9) div 10" by presburger
  finally show ?thesis by (simp add: totalPages_div)
qed

text \<open>
  C5. For a page number \<open>p \<ge> 1\<close>, the keys of the page are the keys of the grouping in
  ascending order from index \<open>(p - 1) * 10\<close> up to, and not including, \<open>p * 10\<close>. Every
  entry of a page is a key of the grouping with the bucket the grouping has for it. The
  page count is the ceiling of the number of keys over 10; one key gives one page.
\<close>

theorem paginate_selects_slice:
  "(1 \<le> p \<longrightarrow>
      map fst (paginatedGroupedEvents g p)
        = take 10 (drop (nat ((p - 1) * 10)) (sort (map fst g))) \<and>
      sorted (map fst (paginatedGroupedEvents g p))) \<and>
   (\<forall>(k, v)\<in>set (paginatedGroupedEvents g p).
      \<exists>bucket. v = Some bucket \<and> map_of g k = Some bucket \<and> (k, bucket) \<in> set g) \<and>
   totalPages g = \<lceil>real (length g) / 10\<rceil> \<and>
   totalPages g = (int (length g) + 9) div 10 \<and>
   (length g = 1 \<longrightarrow> totalPages g = 1)"
proof (intro conjI impI)
  assume "1 \<le> p"
  then show "map fst (paginatedGroupedEvents g p)
        = take 10 (drop (nat ((p - 1) * 10)) (sort (map fst g)))"
    by (simp only: page_keys slice_page)
next
  assume "1 \<le> p"
  then show "sorted (map fst (paginatedGroupedEvents g p))" by (rule page_sorted)
next
  show "\<forall>(k, v)\<in>set (paginatedGroupedEvents g p).
      \<exists>bucket. v = Some bucket \<and> map_of g k = Some bucket \<and> (k, bucket) \<in> set g"
    using page_entry by blast
next
  show "totalPages g = \<lceil>real (length g) / 10\<rceil>" by (rule totalPages_ceiling)
next
  show "totalPages g = (int (length g) + 9) div 10" by (rule totalPages_div)
next
  assume "length g = 1"
  then show "totalPages g = 1" by (simp add: totalPages_div)
qed

lemma group_sample: "groupedEvents utcZone [yogaClass, pilates] = Inr [(''2024-03-07'', [yogaClass, pilates])]"
  by code_simp

theorem paginate_selects_slice_witness:
  "groupedEvents utcZone [yogaClass, pilates] = Inr [(''2024-03-07'', [yogaClass, pilates])] \<and>
   (1::int) \<le> 1 \<and>
   map fst (paginatedGroupedEvents [(''2024-03-07'', [yogaClass, pilates])] 1) = [''2024-03-07''] \<and>
   length [(''2024-03-07'', [yogaClass, pilates])] = 1 \<and>
   totalPages [(''2024-03-07'', [yogaClass, pilates])] = 1"
proof -
  note inst = paginate_selects_slice [of 1 "[(''2024-03-07'', [yogaClass, pilates])]"]
  from inst have "map fst (paginatedGroupedEvents [(''2024-03-07'', [yogaClass, pilates])] 1)
      = take 10 (drop (nat ((1 - 1) * 10)) (sort (map fst [(''2024-03-07'', [yogaClass, pilates])])))"
    by blast
  then have "map fst (paginatedGroupedEvents [(''2024-03-07'', [yogaClass, pilates])] 1)
      = [''2024-03-07'']"
    by simp
  moreover from inst have "totalPages [(''2024-03-07'', [yogaClass, pilates])] = 1" by simp
  ultimately show ?thesis using group_sample by simp
qed

lemma pages_cover_keys:
  "concat (map (\<lambda>p. map fst (paginatedGroupedEvents g p)) [1..totalPages g])
     = sort (map fst g)"
proof -
  define P where "P = nat (totalPages g)"
  let ?ks = "sort (map fst g)"
  have tp: "totalPages g = int P" by (simp add: P_def totalPages_div)
  have enough: "length ?ks \<le> P * 10"
    by (simp add: P_def totalPages_div)
  have "concat (map (\<lambda>p. map fst (paginatedGroupedEvents g p)) [1..int P])
      = concat (map (\<lambda>i. map fst (paginatedGroupedEvents g (int i + 1))) [0..<P])"
    by (simp add: upto_from_1 comp_def)
  also have "\<dots> = concat (map (\<lambda>i. take 10 (drop (i * 10) ?ks)) [0..<P])"
  proof -
    have "map fst (paginatedGroupedEvents g (int i + 1)) = take 10 (drop (i * 10) ?ks)" for i
    proof -
      have "map fst (paginatedGroupedEvents g (int i + 1))
          = take 10 (drop (nat ((int i + 1 - 1) * 10)) ?ks)"
        by (simp only: page_keys slice_page [of "int i + 1"] le_add_same_cancel2 of_nat_0_le_iff)
      also have "nat ((int i + 1 - 1) * 10) = i * 10" by simp
      finally show ?thesis .
    qed
    then show ?thesis by simp
  qed
  also have "\<dots> = take (P * 10) ?ks" by (rule chunks_concat)
  also have "\<dots> = ?ks" using enough by simp
  finally show ?thesis by (simp add: tp)
qed

lemma pages_cover:
  "concat (map (paginatedGroupedEvents g) [1..totalPages g])
     = map (\<lambda>k. (k, map_of g k)) (sort (map fst g))"
proof -
  have "concat (map (paginatedGroupedEvents g) [1..totalPages g])
      = concat (map (\<lambda>p. map (\<lambda>k. (k, map_of g k)) (map fst (paginatedGroupedEvents g p)))
                 [1..totalPages g])"
    using page_entries [of g] by simp
  also have "\<dots> = map (\<lambda>k. (k, map_of g k))
                     (concat (map (\<lambda>p. map fst (paginatedGroupedEvents g p)) [1..totalPages g]))"
    by (simp add: map_concat comp_def)
  finally show ?thesis by (simp only: pages_cover_keys)
qed

lemma pageEvents_concat: "pageEvents (concat pages) = concat (map pageEvents pages)"
  by (induction pages) (simp_all add: pageEvents_def)

lemma mset_concat_map_cong:
  "mset ks = mset ks' \<Longrightarrow> mset (concat (map h ks)) = mset (concat (map h ks'))"
proof -
  have "mset (concat (map h xs)) = (\<Sum>k\<in>#mset xs. mset (h k))" for xs
    by (induction xs) simp_all
  then show "mset ks = mset ks' \<Longrightarrow> mset (concat (map h ks)) = mset (concat (map h ks'))"
    by simp
qed

lemma buckets_of_keys:
  assumes "distinct (map fst g)"
  shows "map (\<lambda>k. case map_of g k of None \<Rightarrow> [] | Some evs \<Rightarrow> evs) (map fst g) = map snd g"
proof -
  have "(case map_of g (fst kv) of None \<Rightarrow> [] | Some evs \<Rightarrow> evs) = snd kv" if "kv \<in> set g" for kv
  proof -
    from that have "(fst kv, snd kv) \<in> set g" by simp
    with assms have "map_of g (fst kv) = Some (snd kv)" by (rule map_of_is_SomeI)
    then show ?thesis by simp
  qed
  then show ?thesis by simp
qed

lemma pages_cover_events:
  assumes "distinct (map fst g)"
  shows "mset (concat (map (\<lambda>p. pageEvents (paginatedGroupedEvents g p)) [1..totalPages g]))
           = mset (concat (map snd g))"
proof -
  let ?h = "\<lambda>k. case map_of g k of None \<Rightarrow> [] | Some evs \<Rightarrow> evs"
  have "concat (map (\<lambda>p. pageEvents (paginatedGroupedEvents g p)) [1..totalPages g])
      = pageEvents (concat (map (paginatedGroupedEvents g) [1..totalPages g]))"
    by (simp add: pageEvents_concat comp_def)
  also have "\<dots> = concat (map ?h (sort (map fst g)))"
    by (simp add: pages_cover pageEvents_def comp_def)
  finally have "mset (concat (map (\<lambda>p. pageEvents (paginatedGroupedEvents g p)) [1..totalPages g]))
      = mset (concat (map ?h (sort (map fst g))))"
    by simp
  also have "\<dots> = mset (concat (map ?h (map fst g)))"
    by (rule mset_concat_map_cong) simp
  also have "\<dots> = mset (concat (map snd g))"
    by (simp only: buckets_of_keys [OF assms])
  finally show ?thesis .
qed

lemma chunks_disjoint:
  assumes "distinct xs" "a + 10 \<le> b"
  shows "set (take 10 (drop a xs)) \<inter> set (take 10 (drop b xs)) = {}"
proof -
  have "xs = take (a + 10) xs @ drop (a + 10) xs" by simp
  with assms(1) have d: "set (take (a + 10) xs) \<inter> set (drop (a + 10) xs) = {}"
    by (metis distinct_append)
  have "take 10 (drop a xs) = drop a (take (a + 10) xs)"
    by (simp add: drop_take)
  then have l: "set (take 10 (drop a xs)) \<subseteq> set (take (a + 10) xs)"
    by (simp add: set_drop_subset)
  have "set (drop b xs) \<subseteq> set (drop (a + 10) xs)"
    using assms(2) by (rule set_drop_subset_set_drop)
  then have r: "set (take 10 (drop b xs)) \<subseteq> set (drop (a + 10) xs)"
    using set_take_subset by fastforce
  from d l r show ?thesis by blast
qed

lemma pages_disjoint_keys:
  assumes "distinct (map fst g)" "1 \<le> p" "p < q"
  shows "fst ` set (paginatedGroupedEvents g p) \<inter> fst ` set (paginatedGroupedEvents g q) = {}"
proof -
  have d: "distinct (sort (map fst g))" using assms(1) by simp
  have "nat ((p - 1) * 10) + 10 \<le> nat ((q - 1) * 10)" using assms(2,3) by simp
  from chunks_disjoint [OF d this]
  have "set (map fst (paginatedGroupedEvents g p)) \<inter> set (map fst (paginatedGroupedEvents g q)) = {}"
    using assms(2,3) by (simp only: page_keys slice_page)
  then show ?thesis by simp
qed

lemma pageEvents_key:
  assumes "e \<in> set (pageEvents (paginatedGroupedEvents g p))" "groupsOf z filtered g"
  shows "\<exists>k. k \<in> fst ` set (paginatedGroupedEvents g p)
            \<and> format_yyyy_MM_dd z (startAt (duration e)) = Inr k"
proof -
  from assms(1) obtain k v where kv: "(k, v) \<in> set (paginatedGroupedEvents g p)"
    and e: "e \<in> set (case v of None \<Rightarrow> [] | Some evs \<Rightarrow> evs)"
    by (auto simp: pageEvents_def)
  from page_entry [OF kv] obtain bucket where b: "v = Some bucket" "map_of g k = Some bucket"
    by blast
  from assms(2) b(2) have "bucket = filter (\<lambda>e. format_yyyy_MM_dd z (startAt (duration e)) = Inr k) filtered"
    unfolding groupsOf_def by (metis option.distinct(1) option.inject)
  with e b(1) have "format_yyyy_MM_dd z (startAt (duration e)) = Inr k" by simp
  moreover from kv have "k \<in> fst ` set (paginatedGroupedEvents g p)" by force
  ultimately show ?thesis by blast
qed

lemma pages_disjoint_events:
  assumes g: "groupedEvents z filtered = Inr g" and pq: "1 \<le> p" "p < q"
  shows "set (pageEvents (paginatedGroupedEvents g p))
           \<inter> set (pageEvents (paginatedGroupedEvents g q)) = {}"
proof -
  from g have inv: "groupsOf z filtered g" by (rule groupedEvents_Inr_groupsOf)
  then have d: "distinct (map fst g)" by (simp add: groupsOf_def)
  have False if "e \<in> set (pageEvents (paginatedGroupedEvents g p))"
      "e \<in> set (pageEvents (paginatedGroupedEvents g q))" for e
  proof -
    from pageEvents_key [OF that(1) inv] obtain k where
      k: "k \<in> fst ` set (paginatedGroupedEvents g p)"
         "format_yyyy_MM_dd z (startAt (duration e)) = Inr k" by blast
    from pageEvents_key [OF that(2) inv] obtain k' where
      k': "k' \<in> fst ` set (paginatedGroupedEvents g q)"
          "format_yyyy_MM_dd z (startAt (duration e)) = Inr k'" by blast
    from k(2) k'(2) have "k = k'" by simp
    with k(1) k'(1) pages_disjoint_keys [OF d pq] show False by blast
  qed
  then show ?thesis by blast
qed

text \<open>
  C6. The pages 1 to \<open>totalPages\<close>, one after the other, are the whole grouping in the
  order of its keys; for a grouping with distinct keys the events they list are the
  events of the grouping, each as often, and two different pages share no key. The pages
  of a grouping that the group stage returned share no event.
\<close>

theorem pages_cover_and_are_disjoint:
  "concat (map (paginatedGroupedEvents g) [1..totalPages g])
     = map (\<lambda>k. (k, map_of g k)) (sort (map fst g)) \<and>
   (distinct (map fst g) \<longrightarrow>
      mset (concat (map (\<lambda>p. pageEvents (paginatedGroupedEvents g p)) [1..totalPages g]))
        = mset (concat (map snd g))) \<and>
   (distinct (map fst g) \<and> 1 \<le> p \<and> p < q \<longrightarrow>
      fst ` set (paginatedGroupedEvents g p) \<inter> fst ` set (paginatedGroupedEvents g q) = {}) \<and>
   (groupedEvents z filtered = Inr g \<and> 1 \<le> p \<and> p < q \<longrightarrow>
      set (pageEvents (paginatedGroupedEvents g p))
        \<inter> set (pageEvents (paginatedGroupedEvents g q)) = {})"
  using pages_cover pages_cover_events pages_disjoint_keys pages_disjoint_events
  by (intro conjI impI) blast+

lemma elevenDays_eq:
  "elevenDays =
     [(''2024-03-11'', [workshop 10]), (''2024-03-10'', [workshop 9]),
      (''2024-03-09'', [workshop 8]), (''2024-03-08'', [workshop 7]),
      (''2024-03-07'', [workshop 6]), (''2024-03-06'', [workshop 5]),
      (''2024-03-05'', [workshop 4]), (''2024-03-04'', [workshop 3]),
      (''2024-03-03'', [workshop 2]), (''2024-03-02'', [workshop 1]),
      (''2024-03-01'', [workshop 0])]"
  by code_simp

lemma elevenDays_grouped: "groupedEvents utcZone workshops = Inr elevenDays"
  by code_simp

lemma elevenDays_sorted_keys:
  "sort (map fst elevenDays) =
     [''2024-03-01'', ''2024-03-02'', ''2024-03-03'', ''2024-03-04'', ''2024-03-05'',
      ''2024-03-06'', ''2024-03-07'', ''2024-03-08'', ''2024-03-09'', ''2024-03-10'',
      ''2024-03-11'']"
  unfolding elevenDays_eq by code_simp

lemma elevenDays_distinct: "distinct (map fst elevenDays)"
  unfolding elevenDays_eq by simp

lemma elevenDays_totalPages: "totalPages elevenDays = 2"
  unfolding totalPages_div elevenDays_eq by simp

theorem pages_cover_and_are_disjoint_witness:
  "groupedEvents utcZone workshops = Inr elevenDays \<and> distinct (map fst elevenDays) \<and>
   totalPages elevenDays = 2 \<and> (1::int) \<le> 1 \<and> (1::int) < 2 \<and>
   map fst (concat (map (paginatedGroupedEvents elevenDays) [1..2])) = sort (map fst elevenDays) \<and>
   mset (concat (map (\<lambda>p. pageEvents (paginatedGroupedEvents elevenDays p)) [1..2]))
     = mset (concat (map snd elevenDays)) \<and>
   fst ` set (paginatedGroupedEvents elevenDays 1)
     \<inter> fst ` set (paginatedGroupedEvents elevenDays 2) = {} \<and>
   set (pageEvents (paginatedGroupedEvents elevenDays 1))
     \<inter> set (pageEvents (paginatedGroupedEvents elevenDays 2)) = {}"
proof -
  note inst = pages_cover_and_are_disjoint [of elevenDays 1 2 utcZone workshops]
  from inst have "concat (map (paginatedGroupedEvents elevenDays) [1..totalPages elevenDays])
     = map (\<lambda>k. (k, map_of elevenDays k)) (sort (map fst elevenDays))"
    by blast
  then have cover: "map fst (concat (map (paginatedGroupedEvents elevenDays) [1..2]))
      = sort (map fst elevenDays)"
    by (simp only: elevenDays_totalPages) (simp add: comp_def)
  from inst elevenDays_distinct
  have "mset (concat (map (\<lambda>p. pageEvents (paginatedGroupedEvents elevenDays p))
                [1..totalPages elevenDays]))
      = mset (concat (map snd elevenDays))"
    by blast
  then have events: "mset (concat (map (\<lambda>p. pageEvents (paginatedGroupedEvents elevenDays p)) [1..2]))
      = mset (concat (map snd elevenDays))"
    by (simp only: elevenDays_totalPages)
  from inst elevenDays_distinct
  have keys: "fst ` set (paginatedGroupedEvents elevenDays 1)
     \<inter> fst ` set (paginatedGroupedEvents elevenDays 2) = {}"
    by simp
  from inst elevenDays_grouped
  have evs: "set (pageEvents (paginatedGroupedEvents elevenDays 1))
     \<inter> set (pageEvents (paginatedGroupedEvents elevenDays 2)) = {}"
    by simp
  from elevenDays_grouped elevenDays_distinct elevenDays_totalPages cover events keys evs
  show ?thesis by (intro conjI) simp_all
qed

subsection \<open>Malformed events\<close>

lemma compareEvents_named:
  assumes "name a \<noteq> None" "name b \<noteq> None"
  shows "\<exists>v. compareEvents lc sortBy a b = Inr v"
  using assms by (cases sortBy) (auto simp: localeCompare_def)

lemma sortStage_named:
  assumes "\<forall>e\<in>set evs. name e \<noteq> None"
  shows "\<exists>r. sortStage lc sortBy evs = Inr r \<and> set r = set evs"
proof -
  have "\<forall>a\<in>set evs. \<forall>b\<in>set evs. \<exists>v. compareEvents lc sortBy a b = Inr v"
    using assms compareEvents_named by blast
  then have "\<exists>r. sortWith (compareEvents lc sortBy) evs = Inr r" by (rule sortWith_total)
  then obtain r where r: "sortWith (compareEvents lc sortBy) evs = Inr r" ..
  from sortWith_mset [OF r] have "set r = set evs" by (rule mset_eq_setD)
  with r show ?thesis by (simp add: sortStage_def)
qed

lemma pipeline_returns:
  assumes wf: "\<forall>e\<in>set evs. fieldsPresent e \<and> startAt (duration e) \<noteq> InvalidDate"
  shows "\<exists>filtered grouped.
           filteredEvents lower lc z now (Some evs) searchQuery filterStatus dateRange sortBy
             = Inr filtered
           \<and> set filtered \<subseteq> set evs \<and> groupedEvents z filtered = Inr grouped"
proof -
  let ?P = "\<lambda>e. searchSelects lower searchQuery e \<and> statusSelects z now filterStatus e
              \<and> startsAfter (range_from dateRange) e \<and> startsBefore (range_to dateRange) e"
  from wf have present: "\<forall>e\<in>set evs. fieldsPresent e" by simp
  have fs: "filterStage lower z now searchQuery filterStatus dateRange evs = Inr (filter ?P evs)"
    by (rule filterStage_present [OF present])
  have "\<forall>e\<in>set (filter ?P evs). name e \<noteq> None"
    using present by (simp add: fieldsPresent_def)
  from sortStage_named [OF this] obtain r where
    r: "sortStage lc sortBy (filter ?P evs) = Inr r" "set r = set (filter ?P evs)"
    by blast
  from r(2) have sub: "set r \<subseteq> set evs" by auto
  with wf have "\<forall>e\<in>set r. startAt (duration e) \<noteq> InvalidDate" by blast
  from groupedEvents_groupsOf [OF this] obtain g where "groupedEvents z r = Inr g" by blast
  with fs r(1) sub show ?thesis by (simp add: filteredEvents_def)
qed

lemma isToday_Invalid: "\<not> isToday z now InvalidDate"
  by (simp add: isToday_def isSameDay_def)

lemma malformed_start_excluded:
  assumes "startAt (duration e) = InvalidDate"
  shows "e \<notin> set (statusFilter z now Upcoming evs)"
    "e \<notin> set (statusFilter z now Today evs)"
    "e \<notin> set (dateRangeFilter \<lparr>range_from = Some lo, range_to = hi\<rparr> evs)"
    "e \<notin> set (dateRangeFilter \<lparr>range_from = lo', range_to = Some hi'\<rparr> evs)"
  using assms
  by (simp_all add: statusFilter_eq statusSelects_def dateRangeFilter_eq startsAfter_def
        startsBefore_def)

lemma malformed_end_excluded:
  assumes "endAt (duration e) = InvalidDate"
  shows "e \<notin> set (statusFilter z now Past evs)"
  using assms by (simp add: statusFilter_eq statusSelects_def)

text \<open>
  C8, as the specification states it, fails. With a search text, an event with no name
  makes the filter stage throw a \<^verbatim>\<open>TypeError\<close>. An event whose start does not parse
  passes the filter stage under the status \<^verbatim>\<open>all\<close>, and then makes the group stage
  throw a \<^verbatim>\<open>RangeError\<close>.
\<close>

theorem malformed_events_counterexample:
  "filteredEvents asciiLower codeUnitCompare utcZone 0 (Some [untitled]) ''yoga'' All noRange DateAsc
     = Inl TypeError \<and>
   filteredEvents asciiLower codeUnitCompare utcZone 0 (Some [undated]) [] All noRange DateAsc = Inr [undated] \<and>
   groupedEvents utcZone [undated] = Inl RangeError"
  by code_simp

text \<open>
  C8, amended. On a collection whose events all have a name, a description, a location
  and a start that is a valid date, the filter and sort stage and then the group stage
  return a value, for every selection state; the filtered events are events of the
  collection. The status and date-range filters never throw, and they exclude an event
  whose start is not a valid date under \<^verbatim>\<open>upcoming\<close>, under \<^verbatim>\<open>today\<close> and under any
  bound that is set, and an event whose end is not a valid date under \<^verbatim>\<open>past\<close>.
\<close>

theorem pipeline_returns_on_wellformed:
  "((\<forall>e\<in>set evs. fieldsPresent e \<and> startAt (duration e) \<noteq> InvalidDate) \<longrightarrow>
      (\<exists>filtered grouped.
         filteredEvents lower lc z now (Some evs) searchQuery filterStatus dateRange sortBy
           = Inr filtered
         \<and> set filtered \<subseteq> set evs \<and> groupedEvents z filtered = Inr grouped)) \<and>
   (startAt (duration e) = InvalidDate \<longrightarrow>
      e \<notin> set (statusFilter z now Upcoming evs) \<and>
      e \<notin> set (statusFilter z now Today evs) \<and>
      e \<notin> set (dateRangeFilter \<lparr>range_from = Some lo, range_to = hi\<rparr> evs) \<and>
      e \<notin> set (dateRangeFilter \<lparr>range_from = lo', range_to = Some hi'\<rparr> evs)) \<and>
   (endAt (duration e) = InvalidDate \<longrightarrow> e \<notin> set (statusFilter z now Past evs))"
  using pipeline_returns malformed_start_excluded malformed_end_excluded
  by (intro conjI impI) blast+

lemma pipeline_sample:
  "filteredEvents asciiLower codeUnitCompare utcZone 0 (Some [pilates, yogaClass]) ''sala'' Upcoming noRange NameAsc
     = Inr [yogaClass, pilates]"
  by code_simp

lemma undated_sample:
  "startAt (duration undated) = InvalidDate"
  "statusFilter utcZone 0 Upcoming [undated, pilates] = [pilates]"
  by code_simp+

theorem pipeline_returns_on_wellformed_witness:
  "fieldsPresent pilates \<and> startAt (duration pilates) \<noteq> InvalidDate \<and>
   fieldsPresent yogaClass \<and> startAt (duration yogaClass) \<noteq> InvalidDate \<and>
   filteredEvents asciiLower codeUnitCompare utcZone 0 (Some [pilates, yogaClass]) ''sala'' Upcoming noRange NameAsc
     = Inr [yogaClass, pilates] \<and>
   (\<exists>grouped. groupedEvents utcZone [yogaClass, pilates] = Inr grouped) \<and>
   startAt (duration undated) = InvalidDate \<and>
   undated \<notin> set (statusFilter utcZone 0 Upcoming [undated, pilates])"
proof -
  note inst = pipeline_returns_on_wellformed
    [where evs = "[pilates, yogaClass]" and lower = asciiLower and lc = codeUnitCompare and z = utcZone and now = 0
       and searchQuery = "''sala''" and filterStatus = Upcoming and dateRange = noRange
       and sortBy = NameAsc and e = undated]
  have wf: "\<forall>e\<in>set [pilates, yogaClass]. fieldsPresent e \<and> startAt (duration e) \<noteq> InvalidDate"
    using samples_present samples_valid by simp
  from inst wf obtain filtered grouped where
    f: "filteredEvents asciiLower codeUnitCompare utcZone 0 (Some [pilates, yogaClass]) ''sala'' Upcoming noRange
          NameAsc = Inr filtered"
    and g: "groupedEvents utcZone filtered = Inr grouped"
    by blast
  from f have "filtered = [yogaClass, pilates]" by (simp add: pipeline_sample)
  with g have "\<exists>grouped. groupedEvents utcZone [yogaClass, pilates] = Inr grouped" by blast
  moreover from pipeline_returns_on_wellformed
    [where evs = "[undated, pilates]" and e = undated and z = utcZone and now = 0]
    undated_sample(1)
  have "undated \<notin> set (statusFilter utcZone 0 Upcoming [undated, pilates])" by blast
  ultimately show ?thesis
    using samples_present samples_valid pipeline_sample undated_sample(1) by simp
qed

subsection \<open>The caller's array\<close>

lemma alloc_workingCopy:
  assumes "length h0 \<le> length h" "take (length h0) h = h0"
  shows "workingCopy h0 xs (alloc xs h)"
  using assms by (simp add: workingCopy_def alloc_def)

lemma workingCopy_store:
  assumes "workingCopy h0 xs (a, h)"
  shows "length h0 \<le> length h" "take (length h0) h = h0" "h ! a = xs" "length h0 \<le> a"
    "a < length h"
  using assms by (simp_all add: workingCopy_def)

lemma filter_store_workingCopy:
  assumes "workingCopy h0 xs s"
  shows "workingCopy h0 (filter p xs) (filter_store p s)"
proof -
  obtain a h where s: "s = (a, h)" by (cases s)
  from assms s have wc: "workingCopy h0 xs (a, h)" by simp
  have "workingCopy h0 (filter p (h ! a)) (alloc (filter p (h ! a)) h)"
    by (rule alloc_workingCopy) (rule workingCopy_store [OF wc])+
  then show ?thesis by (simp add: s filter_store_def workingCopy_store(3) [OF wc])
qed

lemma statusFilter_store_workingCopy:
  assumes "workingCopy h0 xs s"
  shows "workingCopy h0 (statusFilter z now st xs) (statusFilter_store z now st s)"
  using assms
  by (simp add: statusFilter_def statusFilter_store_def filter_store_workingCopy)

lemma dateRangeFilter_store_workingCopy:
  assumes "workingCopy h0 xs s"
  shows "workingCopy h0 (dateRangeFilter dr xs) (dateRangeFilter_store dr s)"
  using assms
  by (cases "range_from dr"; cases "range_to dr")
     (simp_all add: dateRangeFilter_def dateRangeFilter_store_def filter_store_workingCopy
        del: filter_filter)

lemma searchFilter_store_workingCopy:
  assumes "workingCopy h0 xs (a, h)"
  shows "case searchFilter_store lower q (a, h) of
           (Inl err, h') \<Rightarrow> searchFilter lower q xs = Inl err \<and> length h0 \<le> length h'
                             \<and> take (length h0) h' = h0
         | (Inr a', h') \<Rightarrow>
             (\<exists>kept. searchFilter lower q xs = Inr kept \<and> workingCopy h0 kept (a', h'))"
proof (cases "q = []")
  case True
  with assms show ?thesis by (simp add: searchFilter_store_def searchFilter_def)
next
  case False
  note wc = workingCopy_store [OF assms]
  show ?thesis
  proof (cases "filterE (matchesSearch lower (lower q)) xs")
    case (Inl err)
    with False wc show ?thesis by (simp add: searchFilter_store_def searchFilter_def)
  next
    case (Inr kept)
    have "workingCopy h0 kept (alloc kept h)"
      by (rule alloc_workingCopy) (rule wc)+
    with False Inr wc(3) show ?thesis
      by (auto simp: searchFilter_store_def searchFilter_def split: prod.splits)
  qed
qed

lemma sort_store_workingCopy:
  assumes "workingCopy h0 xs (a, h)"
  shows "case sort_store cmp (a, h) of
           (Inl err, h') \<Rightarrow> sortWith cmp xs = Inl err \<and> length h0 \<le> length h'
                             \<and> take (length h0) h' = h0
         | (Inr a', h') \<Rightarrow>
             (\<exists>inOrder. sortWith cmp xs = Inr inOrder \<and> workingCopy h0 inOrder (a', h'))"
proof -
  note wc = workingCopy_store [OF assms]
  show ?thesis
  proof (cases "sortWith cmp xs")
    case (Inl err)
    with wc show ?thesis by (simp add: sort_store_def)
  next
    case (Inr inOrder)
    have "take (length h0) (h[a := inOrder]) = h0"
      using wc(2,4) by simp
    with Inr wc show ?thesis by (simp add: sort_store_def workingCopy_def)
  qed
qed

lemma filteredEvents_store_frame:
  "case filteredEvents_store lower lc z now (Some ev) q st dr sb h of
     (Inl err, h') \<Rightarrow>
        filteredEvents lower lc z now (Some (h ! ev)) q st dr sb = Inl err
        \<and> length h \<le> length h' \<and> take (length h) h' = h
   | (Inr a, h') \<Rightarrow>
        (\<exists>r. filteredEvents lower lc z now (Some (h ! ev)) q st dr sb = Inr r
            \<and> workingCopy h r (a, h'))"
proof -
  obtain a0 h0 where s0: "alloc (h ! ev) h = (a0, h0)" by (cases "alloc (h ! ev) h")
  have "workingCopy h (h ! ev) (alloc (h ! ev) h)" by (rule alloc_workingCopy) simp_all
  with s0 have wc0: "workingCopy h (h ! ev) (a0, h0)" by simp
  obtain res1 h1 where s1: "searchFilter_store lower q (a0, h0) = (res1, h1)"
    by (cases "searchFilter_store lower q (a0, h0)")
  show ?thesis
  proof (cases res1)
    case (Inl err)
    with searchFilter_store_workingCopy [OF wc0, of lower q] s1
    have "searchFilter lower q (h ! ev) = Inl err" "length h \<le> length h1"
      "take (length h) h1 = h"
      by simp_all
    with s0 s1 Inl show ?thesis
      by (simp add: filteredEvents_store_def filteredEvents_def filterStage_def)
  next
    case (Inr a1)
    with searchFilter_store_workingCopy [OF wc0, of lower q] s1
    obtain kept where kept: "searchFilter lower q (h ! ev) = Inr kept"
      and wc1: "workingCopy h kept (a1, h1)"
      by auto
    let ?xs = "dateRangeFilter dr (statusFilter z now st kept)"
    obtain a2 h2 where
      s2: "dateRangeFilter_store dr (statusFilter_store z now st (a1, h1)) = (a2, h2)"
      by (cases "dateRangeFilter_store dr (statusFilter_store z now st (a1, h1))")
    have "workingCopy h ?xs (dateRangeFilter_store dr (statusFilter_store z now st (a1, h1)))"
      by (rule dateRangeFilter_store_workingCopy) (rule statusFilter_store_workingCopy [OF wc1])
    with s2 have wc2: "workingCopy h ?xs (a2, h2)" by simp
    have pure: "filteredEvents lower lc z now (Some (h ! ev)) q st dr sb
                  = sortWith (compareEvents lc sb) ?xs"
      using kept by (simp add: filteredEvents_def filterStage_def sortStage_def)
    have store: "filteredEvents_store lower lc z now (Some ev) q st dr sb h
                   = sort_store (compareEvents lc sb) (a2, h2)"
      using s0 s1 Inr s2 by (simp add: filteredEvents_store_def)
    from sort_store_workingCopy [OF wc2, of "compareEvents lc sb"] show ?thesis
      unfolding pure store .
  qed
qed

lemma filteredEvents_store_no_data:
  "filteredEvents_store lower lc z now None q st dr sb h = (Inr (length h), h @ [[]])"
  by (simp add: filteredEvents_store_def alloc_def)

text \<open>
  C9. Whatever the store and the selection state, \<^verbatim>\<open>filteredEvents\<close> leaves every array
  that was in the store as it was, the caller's array among them, with its elements in
  their order; it returns what the function on values returns; and when it returns an
  array, that array is one the store did not have before. With no data the result is a new
  empty array.
\<close>

theorem source_array_unchanged:
  "(case filteredEvents_store lower lc z now (Some events) searchQuery filterStatus dateRange
           sortBy h of
      (result, h') \<Rightarrow>
         length h \<le> length h' \<and> take (length h) h' = h \<and>
         (events < length h \<longrightarrow> h' ! events = h ! events) \<and>
         (case result of
            Inl err \<Rightarrow>
              filteredEvents lower lc z now (Some (h ! events)) searchQuery filterStatus
                dateRange sortBy = Inl err
          | Inr filtered \<Rightarrow>
              length h \<le> filtered \<and> filtered < length h' \<and>
              filteredEvents lower lc z now (Some (h ! events)) searchQuery filterStatus
                dateRange sortBy = Inr (h' ! filtered))) \<and>
   filteredEvents_store lower lc z now None searchQuery filterStatus dateRange sortBy h
     = (Inr (length h), h @ [[]])"
proof (intro conjI)
  obtain result h' where
    s: "filteredEvents_store lower lc z now (Some events) searchQuery filterStatus dateRange
          sortBy h = (result, h')"
    by (cases "filteredEvents_store lower lc z now (Some events) searchQuery filterStatus
          dateRange sortBy h")
  note frame = filteredEvents_store_frame
    [where lower = lower and lc = lc and z = z and now = now and ev = events
       and q = searchQuery and st = filterStatus and dr = dateRange and sb = sortBy and h = h]
  have keep: "length h \<le> length h' \<and> take (length h) h' = h"
    using frame s by (cases result) (auto simp: workingCopy_def)
  then have same: "events < length h \<longrightarrow> h' ! events = h ! events"
    by (metis nth_take)
  have res: "case result of
            Inl err \<Rightarrow>
              filteredEvents lower lc z now (Some (h ! events)) searchQuery filterStatus
                dateRange sortBy = Inl err
          | Inr filtered \<Rightarrow>
              length h \<le> filtered \<and> filtered < length h' \<and>
              filteredEvents lower lc z now (Some (h ! events)) searchQuery filterStatus
                dateRange sortBy = Inr (h' ! filtered)"
    using frame s by (cases result) (auto simp: workingCopy_def)
  from keep same res s
  show "case filteredEvents_store lower lc z now (Some events) searchQuery filterStatus dateRange
           sortBy h of
      (result, h') \<Rightarrow>
         length h \<le> length h' \<and> take (length h) h' = h \<and>
         (events < length h \<longrightarrow> h' ! events = h ! events) \<and>
         (case result of
            Inl err \<Rightarrow>
              filteredEvents lower lc z now (Some (h ! events)) searchQuery filterStatus
                dateRange sortBy = Inl err
          | Inr filtered \<Rightarrow>
              length h \<le> filtered \<and> filtered < length h' \<and>
              filteredEvents lower lc z now (Some (h ! events)) searchQuery filterStatus
                dateRange sortBy = Inr (h' ! filtered))"
    by simp
next
  show "filteredEvents_store lower lc z now None searchQuery filterStatus dateRange sortBy h
     = (Inr (length h), h @ [[]])"
    by (rule filteredEvents_store_no_data)
qed

lemma store_sample:
  "filteredEvents_store asciiLower codeUnitCompare utcZone 0 (Some 0) [] All noRange PriceAsc
     [[yogaClass, pilates]]
   = (Inr 1, [[yogaClass, pilates], [pilates, yogaClass]])"
  by code_simp

theorem source_array_unchanged_witness:
  "(0::nat) < length [[yogaClass, pilates]] \<and>
   filteredEvents_store asciiLower codeUnitCompare utcZone 0 (Some 0) [] All noRange PriceAsc
     [[yogaClass, pilates]]
   = (Inr 1, [[yogaClass, pilates], [pilates, yogaClass]]) \<and>
   [[yogaClass, pilates], [pilates, yogaClass]] ! 0 = [[yogaClass, pilates]] ! 0 \<and>
   filteredEvents asciiLower codeUnitCompare utcZone 0 (Some [yogaClass, pilates]) [] All noRange
     PriceAsc = Inr [pilates, yogaClass]"
proof -
  note inst = source_array_unchanged
    [where lower = asciiLower and lc = codeUnitCompare and z = utcZone and now = 0
       and events = 0 and searchQuery = "[]" and filterStatus = All and dateRange = noRange
       and sortBy = PriceAsc and h = "[[yogaClass, pilates]]"]
  from inst
  have "[[yogaClass, pilates], [pilates, yogaClass]] ! 0 = [[yogaClass, pilates]] ! 0"
    "filteredEvents asciiLower codeUnitCompare utcZone 0 (Some [yogaClass, pilates]) [] All noRange
       PriceAsc = Inr [pilates, yogaClass]"
    by (simp_all add: store_sample)
  with store_sample show ?thesis by simp
qed

end
